theory Spec2Isabelle
  imports Main "HOL-Library.AList"
begin

section \<open>JavaScript idioms used by the checks\<close>

text \<open>
  \<^verbatim>\<open>x || d\<close> on an optional string: the default is taken when the property is absent
  and also when it is the empty string (both are falsy).
\<close>

definition str_or :: "string option \<Rightarrow> string \<Rightarrow> string" where
  "str_or s d = (case s of None \<Rightarrow> d | Some x \<Rightarrow> if x = [] then d else x)"

text \<open>
  \<^verbatim>\<open>n || d\<close> on an optional number: the default is taken when the property is absent
  and also when it is the number 0, which is falsy.
\<close>

definition num_or :: "nat option \<Rightarrow> nat \<Rightarrow> nat" where
  "num_or n d = (case n of None \<Rightarrow> d | Some k \<Rightarrow> if k = 0 then d else k)"

text \<open>\<^verbatim>\<open>xs || d\<close> on an optional array: an array, even an empty one, is truthy.\<close>

definition list_or :: "'a list option \<Rightarrow> 'a list \<Rightarrow> 'a list" where
  "list_or xs d = (case xs of None \<Rightarrow> d | Some ys \<Rightarrow> ys)"

text \<open>The \<^verbatim>\<open>enabled\<close> flag of a check: absent and \<^verbatim>\<open>false\<close> are both falsy.\<close>

definition truthy :: "bool option \<Rightarrow> bool" where
  "truthy b = (b = Some True)"

text \<open>\<^verbatim>\<open>s.includes(p)\<close>: \<open>p\<close> occurs in \<open>s\<close> as a contiguous substring.\<close>

fun starts_with :: "string \<Rightarrow> string \<Rightarrow> bool" where
  "starts_with s [] = True"
| "starts_with [] (p # ps) = False"
| "starts_with (c # cs) (p # ps) = (c = p \<and> starts_with cs ps)"

fun str_includes :: "string \<Rightarrow> string \<Rightarrow> bool" where
  "str_includes [] p = (p = [])"
| "str_includes (c # cs) p = (starts_with (c # cs) p \<or> str_includes cs p)"

text \<open>\<^verbatim>\<open>s.toLowerCase()\<close> on the ASCII letters.\<close>

definition lower_char :: "char \<Rightarrow> char" where
  "lower_char c =
     (let n = (of_char c :: nat) in if 65 \<le> n \<and> n \<le> 90 then char_of (n + 32) else c)"

definition toLowerCase :: "string \<Rightarrow> string" where
  "toLowerCase s = map lower_char s"

text \<open>The decimal digits of a number, as a template literal prints it.\<close>

definition digit_char :: "nat \<Rightarrow> char" where
  "digit_char d = char_of (d + 48)"

fun string_of_nat :: "nat \<Rightarrow> string" where
  "string_of_nat n =
     (if 10 \<le> n then string_of_nat (n div 10) @ [digit_char (n mod 10)]
      else [digit_char n])"

section \<open>Configuration\<close>

text \<open>
  The configuration is the parsed JSON file. A property that is absent is \<open>None\<close>;
  a property that is present has the type the checks use it at (a boolean flag, a
  number, a string, an array of strings). Counts, lengths and thresholds are natural
  numbers; strings are ASCII.
\<close>

record project =
  name :: string
  pdescription :: string
  version :: string

record thresholds =
  critical :: "nat option"
  high :: "nat option"
  moderate :: "nat option"
  low :: "nat option"

record dependencyAudit_config =
  da_enabled :: "bool option"
  da_command :: "string option"
  severityThresholds :: "thresholds option"

record patterns_config =
  insecure :: "string list option"

record environmentVariables_config =
  env_enabled :: "bool option"
  env_required :: "string list option"
  env_optional :: "string list option"
  minLength :: "nat option"
  patterns :: "patterns_config option"

record securityHeaders_config =
  hdr_enabled :: "bool option"
  hdr_configFile :: "string option"
  hdr_required :: "string list option"

record apiSecurity_config =
  api_enabled :: "bool option"
  apiDirectory :: "string option"
  filePatterns :: "string list option"
  authMiddleware :: "string list option"
  validationMiddleware :: "string list option"

record databaseSecurity_config =
  db_enabled :: "bool option"
  db_configFile :: "string option"
  db_checks :: "string list option"

record checks_config =
  dependencyAudit :: "dependencyAudit_config option"
  environmentVariables :: "environmentVariables_config option"
  securityHeaders :: "securityHeaders_config option"
  apiSecurity :: "apiSecurity_config option"
  databaseSecurity :: "databaseSecurity_config option"

record output_config =
  reportFile :: "string option"
  includeRecommendations :: "bool option"

record config =
  cfg_project :: "project option"
  packageManager :: "string option"
  cfg_checks :: checks_config
  cfg_output :: "output_config option"

section \<open>The accumulator\<close>

record vulnerability =
  package :: string
  severity :: string
  vtitle :: string
  vdescription :: string
  recommendation :: string

record recommendation_rec =
  priority :: string
  category :: string
  title :: string
  description :: string

text \<open>
  The shapes of outcome record the checks write. Every shape carries a \<open>status\<close>; the
  other properties are the \<open>detail\<close>:
  \<^item> \<open>AuditDetail\<close>: vulnerabilities, critical, high, moderate, low, thresholds;
  \<^item> \<open>ErrorDetail\<close>: error;
  \<^item> \<open>EnvDetail\<close>: missing, insecure, checked;
  \<^item> \<open>MissingDetail\<close>: missing (a sentinel string);
  \<^item> \<open>HeadersDetail\<close>: missing, configFile;
  \<^item> \<open>ApiDetail\<close>: unprotectedEndpoints, missingValidation, totalFiles;
  \<^item> \<open>DbDetail\<close>: issues, configFile.
\<close>

datatype detail =
    AuditDetail nat nat nat nat nat thresholds
  | ErrorDetail string
  | EnvDetail "string list" "string list" nat
  | MissingDetail string
  | HeadersDetail "string list" string
  | ApiDetail nat nat nat
  | DbDetail "string list" string

record outcome =
  status :: string
  detail :: detail

text \<open>
  \<open>checks\<close> is a JavaScript object: an assignment to a key that is present replaces
  the value in place, an assignment to a new key appends it (\<open>AList.update\<close>).
\<close>

record results =
  timestamp :: string
  res_project :: "project option"
  checks :: "(string \<times> outcome) list"
  vulnerabilities :: "vulnerability list"
  warnings :: "string list"
  recommendations :: "recommendation_rec list"

section \<open>The world a run reads\<close>

text \<open>
  The file system is a tree; a directory lists its children in the order
  \<^verbatim>\<open>readdirSync\<close> enumerates them. A path is the list of its components.
\<close>

datatype fsnode = File string | Dir "(string \<times> fsnode) list"

record advisory =
  a_severity :: string
  a_title :: string
  a_description :: string
  a_recommendation :: string

text \<open>
  \<open>audit w command\<close> is what \<^verbatim>\<open>JSON.parse(execSync(command))\<close> gives: the message
  of the error thrown by the subprocess or the parser, or the parsed data, of the
  shape \<^verbatim>\<open>{ vulnerabilities: { [package]: advisory } }\<close>, where \<open>None\<close> is an absent
  (falsy) \<^verbatim>\<open>vulnerabilities\<close> property.
\<close>

record world =
  now :: string
  cwd :: "string list"
  env :: "(string \<times> string) list"
  fs :: fsnode
  audit :: "string \<Rightarrow> string + (string \<times> advisory) list option"

section \<open>DependencyAudit\<close>

definition set_check :: "string \<Rightarrow> outcome \<Rightarrow> results \<Rightarrow> results" where
  "set_check k v r = r\<lparr>checks := AList.update k v (checks r)\<rparr>"

definition count_severity :: "string \<Rightarrow> vulnerability list \<Rightarrow> nat" where
  "count_severity s vs = length (filter (\<lambda>v. severity v = s) vs)"

definition push_vulnerabilities ::
  "(string \<times> advisory) list option \<Rightarrow> vulnerability list \<Rightarrow> vulnerability list" where
  "push_vulnerabilities data vs =
     (case data of
        None \<Rightarrow> vs
      | Some entries \<Rightarrow>
          vs @ map (\<lambda>(pkg, vuln).
                 \<lparr>package = pkg, severity = a_severity vuln, vtitle = a_title vuln,
                  vdescription = a_description vuln,
                  recommendation = a_recommendation vuln\<rparr>) entries)"

definition no_thresholds :: thresholds where
  "no_thresholds = \<lparr>critical = None, high = None, moderate = None, low = None\<rparr>"

definition exceedsThresholds :: "thresholds \<Rightarrow> vulnerability list \<Rightarrow> bool" where
  "exceedsThresholds t vs =
     (count_severity ''critical'' vs > num_or (critical t) 0 \<or>
      count_severity ''high'' vs > num_or (high t) 0 \<or>
      count_severity ''moderate'' vs > num_or (moderate t) 5 \<or>
      count_severity ''low'' vs > num_or (low t) 10)"

definition DependencyAudit_run :: "config \<Rightarrow> world \<Rightarrow> results \<Rightarrow> string + results" where
  "DependencyAudit_run cfg w r =
     (case dependencyAudit (cfg_checks cfg) of
        None \<Rightarrow> Inr r
      | Some dc \<Rightarrow>
          if \<not> truthy (da_enabled dc) then Inr r
          else
            (let packageManager = str_or (packageManager cfg) ''npm'';
                 command = packageManager @ '' '' @
                   (case da_command dc of None \<Rightarrow> ''undefined'' | Some c \<Rightarrow> c)
             in case audit w command of
                  Inl message \<Rightarrow>
                    Inr (set_check ''dependencyAudit''
                          \<lparr>status = ''error'', detail = ErrorDetail message\<rparr> r)
                | Inr auditData \<Rightarrow>
                    (let vs = push_vulnerabilities auditData (vulnerabilities r);
                         thresholds =
                           (case severityThresholds dc of None \<Rightarrow> no_thresholds | Some t \<Rightarrow> t)
                     in Inr (set_check ''dependencyAudit''
                          \<lparr>status = (if exceedsThresholds thresholds vs then ''fail'' else ''pass''),
                           detail = AuditDetail (length vs)
                             (count_severity ''critical'' vs) (count_severity ''high'' vs)
                             (count_severity ''moderate'' vs) (count_severity ''low'' vs)
                             thresholds\<rparr>
                          (r\<lparr>vulnerabilities := vs\<rparr>)))))"

section \<open>Paths and the file system\<close>

text \<open>
  \<^verbatim>\<open>path.join(dir, s)\<close>: the segments of \<open>s\<close> between slashes are appended to
  \<open>dir\<close>; an empty segment and \<^verbatim>\<open>.\<close> are dropped and \<^verbatim>\<open>..\<close> removes the last
  component. A path is a list of components, so a trailing slash, which \<^verbatim>\<open>path.join\<close>
  keeps and which makes a path to a file fail to resolve, is not represented:
  configured paths are taken to have none.
\<close>

fun split_on :: "char \<Rightarrow> string \<Rightarrow> string list" where
  "split_on d [] = [[]]"
| "split_on d (c # cs) =
     (if c = d then [] # split_on d cs
      else (case split_on d cs of [] \<Rightarrow> [[c]] | seg # segs \<Rightarrow> (c # seg) # segs))"

definition path_step :: "string list \<Rightarrow> string \<Rightarrow> string list" where
  "path_step dir seg =
     (if seg = [] \<or> seg = ''.'' then dir
      else if seg = ''..'' then butlast dir
      else dir @ [seg])"

definition path_join :: "string list \<Rightarrow> string \<Rightarrow> string list" where
  "path_join dir s = foldl path_step dir (split_on CHR ''/'' s)"

definition render_path :: "string list \<Rightarrow> string" where
  "render_path p = (if p = [] then ''/'' else concat (map (\<lambda>c. ''/'' @ c) p))"

fun lookup :: "fsnode \<Rightarrow> string list \<Rightarrow> fsnode option" where
  "lookup n [] = Some n"
| "lookup (File c) (x # xs) = None"
| "lookup (Dir items) (x # xs) =
     (case map_of items x of None \<Rightarrow> None | Some n \<Rightarrow> lookup n xs)"

definition existsSync :: "world \<Rightarrow> string list \<Rightarrow> bool" where
  "existsSync w p = (lookup (fs w) p \<noteq> None)"

text \<open>\<^verbatim>\<open>readFileSync\<close> throws on a path that is missing or names a directory.\<close>

definition readFileSync :: "world \<Rightarrow> string list \<Rightarrow> string + string" where
  "readFileSync w p =
     (case lookup (fs w) p of
        None \<Rightarrow> Inl (''ENOENT: no such file or directory, open '' @ render_path p)
      | Some (Dir items) \<Rightarrow> Inl ''EISDIR: illegal operation on a directory, read''
      | Some (File content) \<Rightarrow> Inr content)"

text \<open>\<^verbatim>\<open>readdirSync\<close> throws on a path that is missing or names a file.\<close>

definition readdirSync :: "world \<Rightarrow> string list \<Rightarrow> string + (string \<times> fsnode) list" where
  "readdirSync w p =
     (case lookup (fs w) p of
        None \<Rightarrow> Inl (''ENOENT: no such file or directory, scandir '' @ render_path p)
      | Some (File content) \<Rightarrow> Inl (''ENOTDIR: not a directory, scandir '' @ render_path p)
      | Some (Dir items) \<Rightarrow> Inr items)"

section \<open>EnvironmentVariables\<close>

text \<open>
  \<^verbatim>\<open>process.env[name]\<close> on the process's own variables. The members that the object
  inherits from \<^verbatim>\<open>Object.prototype\<close> (\<^verbatim>\<open>toString\<close>, \<^verbatim>\<open>constructor\<close> and the like),
  which the lookup would also return for such a name, are not modelled: variable names
  are taken not to be among them.
\<close>

definition getenv :: "world \<Rightarrow> string \<Rightarrow> string option" where
  "getenv w k = map_of (env w) k"

text \<open>
  The body of the loop over the required variables; the accumulator is the pair of
  \<open>missingVars\<close> and \<open>insecureVars\<close>. A variable whose value is the empty string is
  falsy, hence missing.
\<close>

definition required_step ::
  "world \<Rightarrow> nat \<Rightarrow> string list \<times> string list \<Rightarrow> string \<Rightarrow> string list \<times> string list" where
  "required_step w minLen acc varName =
     (case acc of (missingVars, insecureVars) \<Rightarrow>
        (case getenv w varName of
           None \<Rightarrow> (missingVars @ [varName], insecureVars)
         | Some v \<Rightarrow>
             if v = [] then (missingVars @ [varName], insecureVars)
             else if length v < minLen then (missingVars, insecureVars @ [varName])
             else (missingVars, insecureVars)))"

text \<open>The body of the loop over all the entries of the process environment.\<close>

definition pattern_step ::
  "string list \<Rightarrow> nat \<Rightarrow> string list \<Rightarrow> string \<times> string \<Rightarrow> string list" where
  "pattern_step insecurePatterns minLen insecureVars entry =
     (case entry of (key, value) \<Rightarrow>
        if value \<noteq> [] \<and>
           list_ex (\<lambda>pattern. str_includes (toLowerCase value) pattern) insecurePatterns
        then (if length value < minLen * 2 then insecureVars @ [key] else insecureVars)
        else insecureVars)"

definition insecurePatterns_of :: "environmentVariables_config \<Rightarrow> string list" where
  "insecurePatterns_of envConfig =
     (case patterns envConfig of
        None \<Rightarrow> [''password'', ''secret'', ''key'']
      | Some ps \<Rightarrow> list_or (insecure ps) [''password'', ''secret'', ''key''])"

definition EnvironmentVariables_run :: "config \<Rightarrow> world \<Rightarrow> results \<Rightarrow> string + results" where
  "EnvironmentVariables_run cfg w r =
     (case environmentVariables (cfg_checks cfg) of
        None \<Rightarrow> Inr r
      | Some envConfig \<Rightarrow>
          if \<not> truthy (env_enabled envConfig) then Inr r
          else
            (let requiredVars = list_or (env_required envConfig) [];
                 optionalVars = list_or (env_optional envConfig) [];
                 minLen = num_or (minLength envConfig) 10;
                 insecurePatterns = insecurePatterns_of envConfig;
                 (missingVars, insecureVars0) =
                    foldl (required_step w minLen) ([], []) requiredVars;
                 insecureVars =
                    foldl (pattern_step insecurePatterns minLen) insecureVars0 (env w)
             in Inr (set_check ''environmentVariables''
                  \<lparr>status = (if length missingVars = 0 \<and> length insecureVars = 0
                              then ''pass'' else ''warn''),
                   detail = EnvDetail missingVars insecureVars
                              (length requiredVars + length optionalVars)\<rparr> r)))"

section \<open>SecurityHeaders\<close>

definition SecurityHeaders_run :: "config \<Rightarrow> world \<Rightarrow> results \<Rightarrow> string + results" where
  "SecurityHeaders_run cfg w r =
     (case securityHeaders (cfg_checks cfg) of
        None \<Rightarrow> Inr r
      | Some headersConfig \<Rightarrow>
          if \<not> truthy (hdr_enabled headersConfig) then Inr r
          else
            (let configFile = str_or (hdr_configFile headersConfig) ''next.config.mjs'';
                 configPath = path_join (cwd w) configFile
             in if \<not> existsSync w configPath
                then Inr (set_check ''securityHeaders''
                       \<lparr>status = ''warn'', detail = MissingDetail ''config_file''\<rparr>
                       (r\<lparr>warnings := warnings r @ [configFile @ '' not found'']\<rparr>))
                else
                  (case readFileSync w configPath of
                     Inl message \<Rightarrow> Inl message
                   | Inr configContent \<Rightarrow>
                       (let requiredHeaders = list_or (hdr_required headersConfig) [];
                            missingHeaders =
                              filter (\<lambda>header. \<not> str_includes configContent header)
                                requiredHeaders
                        in Inr (set_check ''securityHeaders''
                             \<lparr>status = (if length missingHeaders = 0 then ''pass'' else ''warn''),
                              detail = HeadersDetail missingHeaders configFile\<rparr> r)))))"

section \<open>ApiSecurity\<close>

text \<open>
  \<open>readDir\<close> walks the children of \<open>currentDir\<close> in their enumeration order: a
  directory is entered at once, a file is pushed when its name is one of the patterns.
\<close>

fun readDir :: "string list \<Rightarrow> (string \<times> fsnode) list \<Rightarrow> string list \<Rightarrow> string list list" where
  "readDir currentDir [] pats = []"
| "readDir currentDir ((item, Dir items) # rest) pats =
     readDir (currentDir @ [item]) items pats @ readDir currentDir rest pats"
| "readDir currentDir ((item, File content) # rest) pats =
     (if item \<in> set pats then [currentDir @ [item]] else []) @
     readDir currentDir rest pats"

definition findApiFiles :: "world \<Rightarrow> string list \<Rightarrow> string list \<Rightarrow> string + string list list" where
  "findApiFiles w dir pats =
     (case readdirSync w dir of
        Inl message \<Rightarrow> Inl message
      | Inr items \<Rightarrow> Inr (readDir dir items pats))"

text \<open>
  The loop over the discovered files; the accumulator is the pair of
  \<open>unprotectedEndpoints\<close> and \<open>missingValidation\<close>.
\<close>

fun scan_files ::
  "world \<Rightarrow> string list \<Rightarrow> string list \<Rightarrow> string list list \<Rightarrow>
   string list list \<times> string list list \<Rightarrow> string + string list list \<times> string list list" where
  "scan_files w auth val [] acc = Inr acc"
| "scan_files w auth val (file # rest) acc =
     (case readFileSync w file of
        Inl message \<Rightarrow> Inl message
      | Inr content \<Rightarrow>
          scan_files w auth val rest
            (if \<not> list_ex (\<lambda>middleware. str_includes content middleware) auth
             then fst acc @ [file] else fst acc,
             if \<not> list_ex (\<lambda>middleware. str_includes content middleware) val
             then snd acc @ [file] else snd acc))"

definition ApiSecurity_run :: "config \<Rightarrow> world \<Rightarrow> results \<Rightarrow> string + results" where
  "ApiSecurity_run cfg w r =
     (case apiSecurity (cfg_checks cfg) of
        None \<Rightarrow> Inr r
      | Some apiConfig \<Rightarrow>
          if \<not> truthy (api_enabled apiConfig) then Inr r
          else
            (let apiDir = path_join (cwd w) (str_or (apiDirectory apiConfig) ''app/api'')
             in if \<not> existsSync w apiDir
                then Inr (set_check ''apiSecurity''
                       \<lparr>status = ''warn'', detail = MissingDetail ''api_directory''\<rparr>
                       (r\<lparr>warnings := warnings r @
                            [''API directory not found: '' @ render_path apiDir]\<rparr>))
                else
                  (case findApiFiles w apiDir
                          (list_or (filePatterns apiConfig) [''route.ts'', ''route.js'']) of
                     Inl message \<Rightarrow> Inl message
                   | Inr apiFiles \<Rightarrow>
                       (case scan_files w
                               (list_or (authMiddleware apiConfig)
                                  [''withAuth'', ''withOptionalAuth''])
                               (list_or (validationMiddleware apiConfig)
                                  [''withValidation'', ''zod''])
                               apiFiles ([], []) of
                          Inl message \<Rightarrow> Inl message
                        | Inr (unprotectedEndpoints, missingValidation) \<Rightarrow>
                            Inr (set_check ''apiSecurity''
                              \<lparr>status = (if length unprotectedEndpoints = 0
                                         then ''pass'' else ''warn''),
                               detail = ApiDetail (length unprotectedEndpoints)
                                          (length missingValidation) (length apiFiles)\<rparr> r)))))"

section \<open>DatabaseSecurity\<close>

definition securityIssues_of :: "string list \<Rightarrow> string \<Rightarrow> string list" where
  "securityIssues_of chks content =
     (if ''sslValidation'' \<in> set chks \<and> str_includes content ''rejectUnauthorized: false''
      then [''SSL certificate validation disabled''] else []) @
     (if ''connectionLimits'' \<in> set chks \<and>
         (\<not> str_includes content ''max:'' \<or> \<not> str_includes content ''min:'')
      then [''Connection pool limits not configured''] else []) @
     (if ''timeouts'' \<in> set chks \<and> \<not> str_includes content ''timeout''
      then [''Query timeouts not configured''] else [])"

definition DatabaseSecurity_run :: "config \<Rightarrow> world \<Rightarrow> results \<Rightarrow> string + results" where
  "DatabaseSecurity_run cfg w r =
     (case databaseSecurity (cfg_checks cfg) of
        None \<Rightarrow> Inr r
      | Some dbConfig \<Rightarrow>
          if \<not> truthy (db_enabled dbConfig) then Inr r
          else
            (let dbConfigPath =
                   path_join (cwd w) (str_or (db_configFile dbConfig) ''lib/database.ts'')
             in if \<not> existsSync w dbConfigPath
                then Inr (set_check ''databaseSecurity''
                       \<lparr>status = ''warn'', detail = MissingDetail ''config_file''\<rparr>
                       (r\<lparr>warnings := warnings r @
                            [''Database configuration not found: '' @
                             render_path dbConfigPath]\<rparr>))
                else
                  (case readFileSync w dbConfigPath of
                     Inl message \<Rightarrow> Inl message
                   | Inr content \<Rightarrow>
                       (let securityIssues =
                              securityIssues_of
                                (list_or (db_checks dbConfig)
                                   [''sslValidation'', ''connectionLimits'', ''timeouts''])
                                content
                        in Inr (set_check ''databaseSecurity''
                             \<lparr>status = (if length securityIssues = 0 then ''pass'' else ''warn''),
                              detail = DbDetail securityIssues
                                (str_or (db_configFile dbConfig) ''lib/database.ts'')\<rparr> r)))))"

section \<open>ReportGenerator\<close>

text \<open>
  \<^verbatim>\<open>o?.missing?.length\<close>, \<^verbatim>\<open>o?.unprotectedEndpoints\<close> and \<^verbatim>\<open>o?.issues?.length\<close> on
  whatever outcome record is stored under a name; \<open>None\<close> is \<^verbatim>\<open>undefined\<close>. The
  property \<^verbatim>\<open>missing\<close> is a list in some shapes and a sentinel string in another: both
  have a length.
\<close>

definition missing_length :: "outcome option \<Rightarrow> nat option" where
  "missing_length oc =
     (case oc of
        None \<Rightarrow> None
      | Some x \<Rightarrow>
          (case detail x of
             EnvDetail missing insec checked \<Rightarrow> Some (length missing)
           | MissingDetail sentinel \<Rightarrow> Some (length sentinel)
           | HeadersDetail missing file \<Rightarrow> Some (length missing)
           | _ \<Rightarrow> None))"

definition unprotectedEndpoints_of :: "outcome option \<Rightarrow> nat option" where
  "unprotectedEndpoints_of oc =
     (case oc of
        None \<Rightarrow> None
      | Some x \<Rightarrow> (case detail x of ApiDetail u m t \<Rightarrow> Some u | _ \<Rightarrow> None))"

definition issues_length :: "outcome option \<Rightarrow> nat option" where
  "issues_length oc =
     (case oc of
        None \<Rightarrow> None
      | Some x \<Rightarrow> (case detail x of DbDetail issues file \<Rightarrow> Some (length issues) | _ \<Rightarrow> None))"

text \<open>\<^verbatim>\<open>x > 0\<close>, which is false when \<open>x\<close> is \<^verbatim>\<open>undefined\<close>.\<close>

definition gt0 :: "nat option \<Rightarrow> bool" where
  "gt0 n = (case n of None \<Rightarrow> False | Some k \<Rightarrow> k > 0)"

definition push_recommendation :: "recommendation_rec \<Rightarrow> results \<Rightarrow> results" where
  "push_recommendation x r = r\<lparr>recommendations := recommendations r @ [x]\<rparr>"

definition includeRecommendations_on :: "config \<Rightarrow> bool" where
  "includeRecommendations_on cfg =
     (case cfg_output cfg of None \<Rightarrow> False | Some oc \<Rightarrow> truthy (includeRecommendations oc))"

definition rec_dependencies :: "config \<Rightarrow> results \<Rightarrow> recommendation_rec" where
  "rec_dependencies cfg r =
     \<lparr>priority = ''high'', category = ''dependencies'',
      title = ''Update vulnerable dependencies'',
      description = ''Found '' @ string_of_nat (length (vulnerabilities r)) @
        '' vulnerabilities. Run '' @ [CHR 0x27] @ str_or (packageManager cfg) ''npm'' @
        '' update'' @ [CHR 0x27] @ '' to fix them.''\<rparr>"

definition rec_environment :: recommendation_rec where
  "rec_environment =
     \<lparr>priority = ''high'', category = ''environment'',
      title = ''Configure missing environment variables'',
      description =
        ''Set up all required environment variables for production deployment.''\<rparr>"

definition rec_api :: recommendation_rec where
  "rec_api =
     \<lparr>priority = ''high'', category = ''api'',
      title = ''Protect API endpoints'',
      description = ''Add authentication middleware to all sensitive API endpoints.''\<rparr>"

definition rec_headers :: recommendation_rec where
  "rec_headers =
     \<lparr>priority = ''medium'', category = ''headers'',
      title = ''Implement security headers'',
      description = ''Add comprehensive security headers to prevent common attacks.''\<rparr>"

definition rec_database :: recommendation_rec where
  "rec_database =
     \<lparr>priority = ''medium'', category = ''database'',
      title = ''Improve database security'',
      description = ''Configure proper SSL settings and connection limits.''\<rparr>"

definition generateRecommendations :: "config \<Rightarrow> results \<Rightarrow> results" where
  "generateRecommendations cfg r =
     (if \<not> includeRecommendations_on cfg then r
      else
        (let r1 = (if length (vulnerabilities r) > 0
                   then push_recommendation (rec_dependencies cfg r) r else r);
             r2 = (if gt0 (missing_length (map_of (checks r1) ''environmentVariables''))
                   then push_recommendation rec_environment r1 else r1);
             r3 = (if gt0 (unprotectedEndpoints_of (map_of (checks r2) ''apiSecurity''))
                   then push_recommendation rec_api r2 else r2);
             r4 = (if gt0 (missing_length (map_of (checks r3) ''securityHeaders''))
                   then push_recommendation rec_headers r3 else r3);
             r5 = (if gt0 (issues_length (map_of (checks r4) ''databaseSecurity''))
                   then push_recommendation rec_database r4 else r4)
         in r5))"

text \<open>
  The report written: its path and the accumulator it serialises. The write is taken
  to succeed; a failing \<^verbatim>\<open>writeFileSync\<close>, which would reject the run after all checks
  and the deriver, is not modelled.
\<close>

definition generateReport :: "config \<Rightarrow> world \<Rightarrow> results \<Rightarrow> string list \<times> results" where
  "generateReport cfg w r =
     (path_join (cwd w)
        (str_or (case cfg_output cfg of None \<Rightarrow> None | Some oc \<Rightarrow> reportFile oc)
           ''security-report.json''),
      r)"

section \<open>SecurityMonitor, the orchestrator\<close>

definition new_results :: "config \<Rightarrow> world \<Rightarrow> results" where
  "new_results cfg w =
     \<lparr>timestamp = now w, res_project = cfg_project cfg, checks = [],
      vulnerabilities = [], warnings = [], recommendations = []\<rparr>"

text \<open>\<open>this.checks\<close>: the five check modules under their names, in insertion order.\<close>

definition checks_registry ::
  "(string \<times> (config \<Rightarrow> world \<Rightarrow> results \<Rightarrow> string + results)) list" where
  "checks_registry =
     [(''dependencyAudit'', DependencyAudit_run),
      (''environmentVariables'', EnvironmentVariables_run),
      (''securityHeaders'', SecurityHeaders_run),
      (''apiSecurity'', ApiSecurity_run),
      (''databaseSecurity'', DatabaseSecurity_run)]"

text \<open>\<^verbatim>\<open>this.config.checks[checkName]?.enabled\<close>\<close>

definition config_enabled :: "config \<Rightarrow> string \<Rightarrow> bool" where
  "config_enabled cfg checkName =
     (if checkName = ''dependencyAudit'' then
        (case dependencyAudit (cfg_checks cfg) of None \<Rightarrow> False | Some c \<Rightarrow> truthy (da_enabled c))
      else if checkName = ''environmentVariables'' then
        (case environmentVariables (cfg_checks cfg) of
           None \<Rightarrow> False | Some c \<Rightarrow> truthy (env_enabled c))
      else if checkName = ''securityHeaders'' then
        (case securityHeaders (cfg_checks cfg) of None \<Rightarrow> False | Some c \<Rightarrow> truthy (hdr_enabled c))
      else if checkName = ''apiSecurity'' then
        (case apiSecurity (cfg_checks cfg) of None \<Rightarrow> False | Some c \<Rightarrow> truthy (api_enabled c))
      else if checkName = ''databaseSecurity'' then
        (case databaseSecurity (cfg_checks cfg) of None \<Rightarrow> False | Some c \<Rightarrow> truthy (db_enabled c))
      else False)"

text \<open>
  The body of the orchestrator's loop. A check that throws has not yet written to the
  accumulator (every \<open>Inl\<close> of the checks above comes before their first write), so the
  handler records the error on the accumulator as it was.
\<close>

definition run_check ::
  "config \<Rightarrow> world \<Rightarrow> results \<Rightarrow>
   string \<times> (config \<Rightarrow> world \<Rightarrow> results \<Rightarrow> string + results) \<Rightarrow> results" where
  "run_check cfg w r entry =
     (case entry of (checkName, checkModule) \<Rightarrow>
        if config_enabled cfg checkName then
          (case checkModule cfg w r of
             Inr r' \<Rightarrow> r'
           | Inl message \<Rightarrow>
               set_check checkName \<lparr>status = ''error'', detail = ErrorDetail message\<rparr> r)
        else r)"

definition run_checks ::
  "config \<Rightarrow> world \<Rightarrow> (string \<times> (config \<Rightarrow> world \<Rightarrow> results \<Rightarrow> string + results)) list \<Rightarrow>
   results \<Rightarrow> results" where
  "run_checks cfg w entries r = foldl (run_check cfg w) r entries"

text \<open>A run gives the final accumulator and the report written from it.\<close>

definition SecurityMonitor_run :: "config \<Rightarrow> world \<Rightarrow> results \<times> (string list \<times> results)" where
  "SecurityMonitor_run cfg w =
     (let r = generateRecommendations cfg (run_checks cfg w checks_registry (new_results cfg w))
      in (r, generateReport cfg w r))"

section \<open>The legacy monolith\<close>

text \<open>
  The single-file \<open>SecurityMonitor\<close> class that the modules were split from. Its
  methods are translated one by one; they use the same loop bodies and helpers as the
  modules (\<open>required_step\<close>, \<open>pattern_step\<close>, \<open>readDir\<close>, \<open>scan_files\<close>,
  \<open>securityIssues_of\<close>, the recommendation records).
\<close>

definition legacy_new_results :: "config \<Rightarrow> world \<Rightarrow> results" where
  "legacy_new_results cfg w =
     \<lparr>timestamp = now w, res_project = cfg_project cfg, checks = [],
      vulnerabilities = [], warnings = [], recommendations = []\<rparr>"

definition legacy_runDependencyAudit :: "config \<Rightarrow> world \<Rightarrow> results \<Rightarrow> string + results" where
  "legacy_runDependencyAudit cfg w r =
     (case dependencyAudit (cfg_checks cfg) of
        None \<Rightarrow> Inr r
      | Some dc \<Rightarrow>
          if \<not> truthy (da_enabled dc) then Inr r
          else
            (let packageManager = str_or (packageManager cfg) ''npm'';
                 command = packageManager @ '' '' @
                   (case da_command dc of None \<Rightarrow> ''undefined'' | Some c \<Rightarrow> c)
             in case audit w command of
                  Inl message \<Rightarrow>
                    Inr (set_check ''dependencyAudit''
                          \<lparr>status = ''error'', detail = ErrorDetail message\<rparr> r)
                | Inr auditData \<Rightarrow>
                    (let vs = push_vulnerabilities auditData (vulnerabilities r);
                         thresholds =
                           (case severityThresholds dc of None \<Rightarrow> no_thresholds | Some t \<Rightarrow> t)
                     in Inr (set_check ''dependencyAudit''
                          \<lparr>status = (if exceedsThresholds thresholds vs then ''fail'' else ''pass''),
                           detail = AuditDetail (length vs)
                             (count_severity ''critical'' vs) (count_severity ''high'' vs)
                             (count_severity ''moderate'' vs) (count_severity ''low'' vs)
                             thresholds\<rparr>
                          (r\<lparr>vulnerabilities := vs\<rparr>)))))"

definition legacy_checkEnvironmentVariables :: "config \<Rightarrow> world \<Rightarrow> results \<Rightarrow> string + results" where
  "legacy_checkEnvironmentVariables cfg w r =
     (case environmentVariables (cfg_checks cfg) of
        None \<Rightarrow> Inr r
      | Some envConfig \<Rightarrow>
          if \<not> truthy (env_enabled envConfig) then Inr r
          else
            (let requiredVars = list_or (env_required envConfig) [];
                 optionalVars = list_or (env_optional envConfig) [];
                 minLen = num_or (minLength envConfig) 10;
                 insecurePatterns = insecurePatterns_of envConfig;
                 (missingVars, insecureVars0) =
                    foldl (required_step w minLen) ([], []) requiredVars;
                 insecureVars =
                    foldl (pattern_step insecurePatterns minLen) insecureVars0 (env w)
             in Inr (set_check ''environmentVariables''
                  \<lparr>status = (if length missingVars = 0 \<and> length insecureVars = 0
                              then ''pass'' else ''warn''),
                   detail = EnvDetail missingVars insecureVars
                              (length requiredVars + length optionalVars)\<rparr> r)))"

definition legacy_checkSecurityHeaders :: "config \<Rightarrow> world \<Rightarrow> results \<Rightarrow> string + results" where
  "legacy_checkSecurityHeaders cfg w r =
     (case securityHeaders (cfg_checks cfg) of
        None \<Rightarrow> Inr r
      | Some headersConfig \<Rightarrow>
          if \<not> truthy (hdr_enabled headersConfig) then Inr r
          else
            (let configFile = str_or (hdr_configFile headersConfig) ''next.config.mjs'';
                 configPath = path_join (cwd w) configFile
             in if \<not> existsSync w configPath
                then Inr (set_check ''securityHeaders''
                       \<lparr>status = ''warn'', detail = MissingDetail ''config_file''\<rparr>
                       (r\<lparr>warnings := warnings r @ [configFile @ '' not found'']\<rparr>))
                else
                  (case readFileSync w configPath of
                     Inl message \<Rightarrow> Inl message
                   | Inr configContent \<Rightarrow>
                       (let requiredHeaders = list_or (hdr_required headersConfig) [];
                            missingHeaders =
                              filter (\<lambda>header. \<not> str_includes configContent header)
                                requiredHeaders
                        in Inr (set_check ''securityHeaders''
                             \<lparr>status = (if length missingHeaders = 0 then ''pass'' else ''warn''),
                              detail = HeadersDetail missingHeaders configFile\<rparr> r)))))"

definition legacy_findApiFiles :: "world \<Rightarrow> string list \<Rightarrow> string list \<Rightarrow> string + string list list" where
  "legacy_findApiFiles w dir pats =
     (case readdirSync w dir of
        Inl message \<Rightarrow> Inl message
      | Inr items \<Rightarrow> Inr (readDir dir items pats))"

definition legacy_checkApiSecurity :: "config \<Rightarrow> world \<Rightarrow> results \<Rightarrow> string + results" where
  "legacy_checkApiSecurity cfg w r =
     (case apiSecurity (cfg_checks cfg) of
        None \<Rightarrow> Inr r
      | Some apiConfig \<Rightarrow>
          if \<not> truthy (api_enabled apiConfig) then Inr r
          else
            (let apiDir = path_join (cwd w) (str_or (apiDirectory apiConfig) ''app/api'')
             in if \<not> existsSync w apiDir
                then Inr (set_check ''apiSecurity''
                       \<lparr>status = ''warn'', detail = MissingDetail ''api_directory''\<rparr>
                       (r\<lparr>warnings := warnings r @
                            [''API directory not found: '' @ render_path apiDir]\<rparr>))
                else
                  (case legacy_findApiFiles w apiDir
                          (list_or (filePatterns apiConfig) [''route.ts'', ''route.js'']) of
                     Inl message \<Rightarrow> Inl message
                   | Inr apiFiles \<Rightarrow>
                       (case scan_files w
                               (list_or (authMiddleware apiConfig)
                                  [''withAuth'', ''withOptionalAuth''])
                               (list_or (validationMiddleware apiConfig)
                                  [''withValidation'', ''zod''])
                               apiFiles ([], []) of
                          Inl message \<Rightarrow> Inl message
                        | Inr (unprotectedEndpoints, missingValidation) \<Rightarrow>
                            Inr (set_check ''apiSecurity''
                              \<lparr>status = (if length unprotectedEndpoints = 0
                                         then ''pass'' else ''warn''),
                               detail = ApiDetail (length unprotectedEndpoints)
                                          (length missingValidation) (length apiFiles)\<rparr> r)))))"

definition legacy_checkDatabaseSecurity :: "config \<Rightarrow> world \<Rightarrow> results \<Rightarrow> string + results" where
  "legacy_checkDatabaseSecurity cfg w r =
     (case databaseSecurity (cfg_checks cfg) of
        None \<Rightarrow> Inr r
      | Some dbConfig \<Rightarrow>
          if \<not> truthy (db_enabled dbConfig) then Inr r
          else
            (let dbConfigPath =
                   path_join (cwd w) (str_or (db_configFile dbConfig) ''lib/database.ts'')
             in if \<not> existsSync w dbConfigPath
                then Inr (set_check ''databaseSecurity''
                       \<lparr>status = ''warn'', detail = MissingDetail ''config_file''\<rparr>
                       (r\<lparr>warnings := warnings r @
                            [''Database configuration not found: '' @
                             render_path dbConfigPath]\<rparr>))
                else
                  (case readFileSync w dbConfigPath of
                     Inl message \<Rightarrow> Inl message
                   | Inr content \<Rightarrow>
                       (let securityIssues =
                              securityIssues_of
                                (list_or (db_checks dbConfig)
                                   [''sslValidation'', ''connectionLimits'', ''timeouts''])
                                content
                        in Inr (set_check ''databaseSecurity''
                             \<lparr>status = (if length securityIssues = 0 then ''pass'' else ''warn''),
                              detail = DbDetail securityIssues
                                (str_or (db_configFile dbConfig) ''lib/database.ts'')\<rparr> r)))))"

definition legacy_generateRecommendations :: "config \<Rightarrow> results \<Rightarrow> results" where
  "legacy_generateRecommendations cfg r =
     (if \<not> includeRecommendations_on cfg then r
      else
        (let r1 = (if length (vulnerabilities r) > 0
                   then push_recommendation (rec_dependencies cfg r) r else r);
             r2 = (if gt0 (missing_length (map_of (checks r1) ''environmentVariables''))
                   then push_recommendation rec_environment r1 else r1);
             r3 = (if gt0 (unprotectedEndpoints_of (map_of (checks r2) ''apiSecurity''))
                   then push_recommendation rec_api r2 else r2);
             r4 = (if gt0 (missing_length (map_of (checks r3) ''securityHeaders''))
                   then push_recommendation rec_headers r3 else r3);
             r5 = (if gt0 (issues_length (map_of (checks r4) ''databaseSecurity''))
                   then push_recommendation rec_database r4 else r4)
         in r5))"

definition legacy_generateReport :: "config \<Rightarrow> world \<Rightarrow> results \<Rightarrow> string list \<times> results" where
  "legacy_generateReport cfg w r =
     (path_join (cwd w)
        (str_or (case cfg_output cfg of None \<Rightarrow> None | Some oc \<Rightarrow> reportFile oc)
           ''security-report.json''),
      r)"

text \<open>
  The legacy \<open>run\<close> has no handler around a check: an error thrown by a check rejects
  the whole run, with the accumulator as it then is and no report written.
\<close>

datatype legacy_result =
    Completed results "string list \<times> results"
  | Rejected string results

definition legacy_when ::
  "bool \<Rightarrow> (results \<Rightarrow> string + results) \<Rightarrow> results \<Rightarrow> (string \<times> results) + results" where
  "legacy_when enabled method r =
     (if enabled then
        (case method r of Inl message \<Rightarrow> Inl (message, r) | Inr r' \<Rightarrow> Inr r')
      else Inr r)"

definition legacy_run :: "config \<Rightarrow> world \<Rightarrow> legacy_result" where
  "legacy_run cfg w =
     (case legacy_when (config_enabled cfg ''dependencyAudit'')
             (legacy_runDependencyAudit cfg w) (legacy_new_results cfg w) of
        Inl (message, r) \<Rightarrow> Rejected message r
      | Inr r1 \<Rightarrow>
     (case legacy_when (config_enabled cfg ''environmentVariables'')
             (legacy_checkEnvironmentVariables cfg w) r1 of
        Inl (message, r) \<Rightarrow> Rejected message r
      | Inr r2 \<Rightarrow>
     (case legacy_when (config_enabled cfg ''securityHeaders'')
             (legacy_checkSecurityHeaders cfg w) r2 of
        Inl (message, r) \<Rightarrow> Rejected message r
      | Inr r3 \<Rightarrow>
     (case legacy_when (config_enabled cfg ''apiSecurity'')
             (legacy_checkApiSecurity cfg w) r3 of
        Inl (message, r) \<Rightarrow> Rejected message r
      | Inr r4 \<Rightarrow>
     (case legacy_when (config_enabled cfg ''databaseSecurity'')
             (legacy_checkDatabaseSecurity cfg w) r4 of
        Inl (message, r) \<Rightarrow> Rejected message r
      | Inr r5 \<Rightarrow>
          (let r6 = legacy_generateRecommendations cfg r5
           in Completed r6 (legacy_generateReport cfg w r6)))))))"

section \<open>Reference notions and concrete inputs\<close>

text \<open>
  The threshold of a severity tier as the configuration states it: the configured
  number, or the default when none is configured.
\<close>

definition configured_threshold :: "nat option \<Rightarrow> nat \<Rightarrow> nat" where
  "configured_threshold t d = (case t of None \<Rightarrow> d | Some k \<Rightarrow> k)"

text \<open>A configuration whose \<^verbatim>\<open>checks\<close> section names no check.\<close>

definition no_checks :: checks_config where
  "no_checks =
     \<lparr>dependencyAudit = None, environmentVariables = None, securityHeaders = None,
      apiSecurity = None, databaseSecurity = None\<rparr>"

text \<open>A project whose configuration tolerates no moderate vulnerability.\<close>

definition zero_moderate_config :: config where
  "zero_moderate_config =
     \<lparr>cfg_project = None, packageManager = Some ''npm'',
      cfg_checks = no_checks\<lparr>dependencyAudit := Some
        \<lparr>da_enabled = Some True, da_command = Some ''audit --json'',
         severityThresholds = Some
           \<lparr>critical = Some 0, high = Some 0, moderate = Some 0, low = Some 10\<rparr>\<rparr>\<rparr>,
      cfg_output = None\<rparr>"

text \<open>An audit tool that reports one package, of moderate severity.\<close>

definition one_moderate_world :: world where
  "one_moderate_world =
     \<lparr>now = ''2024-01-01T00:00:00.000Z'', cwd = [''proj''], env = [],
      fs = Dir [(''proj'', Dir [])],
      audit = (\<lambda>command. Inr (Some [(''lodash'',
         \<lparr>a_severity = ''moderate'', a_title = ''Prototype pollution'',
          a_description = ''Prototype pollution in lodash'',
          a_recommendation = ''Upgrade to 4.17.21''\<rparr>)]))\<rparr>"

text \<open>The closed set of statuses of an outcome record.\<close>

definition closed_statuses :: "string set" where
  "closed_statuses = {''pass'', ''warn'', ''fail'', ''error''}"

text \<open>
  \<open>wrote_own n r r'\<close>: from \<open>r\<close> to \<open>r'\<close> one outcome, with a status of the closed set,
  was written under the name \<open>n\<close>; the other entries and the recommendations are as
  they were.
\<close>

definition wrote_own :: "string \<Rightarrow> results \<Rightarrow> results \<Rightarrow> bool" where
  "wrote_own n r r' =
     (\<exists>oc r''. r' = set_check n oc r'' \<and> checks r'' = checks r \<and>
        recommendations r'' = recommendations r \<and> status oc \<in> closed_statuses)"

text \<open>
  The headers and the database check enabled, in a project where \<open>next.config.mjs\<close> is
  a directory.
\<close>

definition headers_dir_config :: config where
  "headers_dir_config =
     \<lparr>cfg_project = None, packageManager = None,
      cfg_checks = no_checks
        \<lparr>securityHeaders := Some
           \<lparr>hdr_enabled = Some True, hdr_configFile = None,
            hdr_required = Some [''X-Frame-Options'']\<rparr>,
         databaseSecurity := Some
           \<lparr>db_enabled = Some True, db_configFile = None, db_checks = None\<rparr>\<rparr>,
      cfg_output = Some \<lparr>reportFile = None, includeRecommendations = Some True\<rparr>\<rparr>"

definition headers_dir_world :: world where
  "headers_dir_world =
     \<lparr>now = ''2024-01-01T00:00:00.000Z'', cwd = [''proj''], env = [],
      fs = Dir [(''proj'',
             Dir [(''next.config.mjs'', Dir []),
                  (''lib'', Dir [(''database.ts'', File ''max: 10, min: 2, timeout: 30'')])])],
      audit = (\<lambda>command. Inl ''Command failed'')\<rparr>"





text \<open>The accumulator a legacy run leaves, whether it completed or was rejected.\<close>

definition legacy_accumulator :: "legacy_result \<Rightarrow> results" where
  "legacy_accumulator x = (case x of Completed r rep \<Rightarrow> r | Rejected message r \<Rightarrow> r)"

text \<open>
  The names that the loop over the process environment pushes, that is, the variables
  flagged by the insecure-pattern rule.
\<close>

definition pattern_flagged :: "environmentVariables_config \<Rightarrow> world \<Rightarrow> string list" where
  "pattern_flagged envConfig w =
     foldl (pattern_step (insecurePatterns_of envConfig) (num_or (minLength envConfig) 10))
       [] (env w)"

text \<open>Case-insensitive containment: both strings are compared in lower case.\<close>

definition contains_ci :: "string \<Rightarrow> string \<Rightarrow> bool" where
  "contains_ci s p = str_includes (toLowerCase s) (toLowerCase p)"

text \<open>An insecure pattern written in upper case, and a short value that contains it in lower case.\<close>

definition upper_pattern_env :: environmentVariables_config where
  "upper_pattern_env =
     \<lparr>env_enabled = Some True, env_required = Some [], env_optional = None,
      minLength = Some 10, patterns = Some \<lparr>insecure = Some [''KEY'']\<rparr>\<rparr>"

definition upper_pattern_config :: config where
  "upper_pattern_config =
     \<lparr>cfg_project = None, packageManager = None,
      cfg_checks = no_checks\<lparr>environmentVariables := Some upper_pattern_env\<rparr>,
      cfg_output = None\<rparr>"

definition token_world :: world where
  "token_world =
     \<lparr>now = ''2024-01-01T00:00:00.000Z'', cwd = [''proj''],
      env = [(''TOKEN'', ''my-key'')],
      fs = Dir [(''proj'', Dir [])],
      audit = (\<lambda>command. Inl ''Command failed'')\<rparr>"

text \<open>
  One required variable; in \<open>session_world\<close> a variable that is not required holds a short
  value with the pattern, in \<open>clean_world\<close> no value holds it.
\<close>

definition secure_required_env :: environmentVariables_config where
  "secure_required_env =
     \<lparr>env_enabled = Some True, env_required = Some [''API_TOKEN''], env_optional = None,
      minLength = Some 10, patterns = Some \<lparr>insecure = Some [''secret'']\<rparr>\<rparr>"

definition secure_required_config :: config where
  "secure_required_config =
     \<lparr>cfg_project = None, packageManager = None,
      cfg_checks = no_checks\<lparr>environmentVariables := Some secure_required_env\<rparr>,
      cfg_output = None\<rparr>"

definition session_world :: world where
  "session_world =
     \<lparr>now = ''2024-01-01T00:00:00.000Z'', cwd = [''proj''],
      env = [(''API_TOKEN'', ''3f9a7c21d8e4b605''), (''SESSION'', ''secret'')],
      fs = Dir [(''proj'', Dir [])],
      audit = (\<lambda>command. Inl ''Command failed'')\<rparr>"


text \<open>
  A well-formed tree: the names in a directory are distinct, at every level.
\<close>

fun wf_items :: "(string \<times> fsnode) list \<Rightarrow> bool" where
  "wf_items [] = True"
| "wf_items ((item, Dir items) # rest) =
     (item \<notin> fst ` set rest \<and> wf_items items \<and> wf_items rest)"
| "wf_items ((item, File content) # rest) = (item \<notin> fst ` set rest \<and> wf_items rest)"

fun wf_fs :: "fsnode \<Rightarrow> bool" where
  "wf_fs (File content) = True"
| "wf_fs (Dir items) = wf_items items"

text \<open>
  The files strictly below \<open>dir\<close> whose name is one of the patterns, as a set of
  paths: no enumeration order is involved.
\<close>

definition files_under :: "world \<Rightarrow> string list \<Rightarrow> string list \<Rightarrow> string list set" where
  "files_under w dir pats =
     {f. \<exists>q content. f = dir @ q \<and> q \<noteq> [] \<and> lookup (fs w) f = Some (File content) \<and>
           last f \<in> set pats}"

text \<open>The content of the file contains none of the middleware substrings.\<close>

definition lacks_all :: "world \<Rightarrow> string list \<Rightarrow> string list \<Rightarrow> bool" where
  "lacks_all w middlewares file =
     (case readFileSync w file of
        Inl message \<Rightarrow> False
      | Inr content \<Rightarrow> \<not> list_ex (\<lambda>middleware. str_includes content middleware) middlewares)"

text \<open>The content of a node: that of a file, none for a directory.\<close>

fun content_of :: "fsnode \<Rightarrow> string option" where
  "content_of (File content) = Some content"
| "content_of (Dir items) = None"

text \<open>
  \<open>reordered t t'\<close>: the tree \<open>t'\<close> is \<open>t\<close> with the children of some of its
  directories, at any depth, enumerated in another order.
\<close>

inductive reordered :: "fsnode \<Rightarrow> fsnode \<Rightarrow> bool" where
  same: "reordered t t"
| swap: "reordered (Dir (xs @ a # b # ys)) (Dir (xs @ b # a # ys))"
| child: "reordered t t' \<Longrightarrow> reordered (Dir (xs @ (n, t) # ys)) (Dir (xs @ (n, t') # ys))"
| trans: "reordered t1 t2 \<Longrightarrow> reordered t2 t3 \<Longrightarrow> reordered t1 t3"

text \<open>
  An API tree with a protected and an unprotected route, the same tree enumerated in
  another order, and a tree whose only route is protected but not validated.
\<close>

definition api_settings :: apiSecurity_config where
  "api_settings =
     \<lparr>api_enabled = Some True, apiDirectory = Some ''app/api'',
      filePatterns = Some [''route.ts'', ''*.js''], authMiddleware = Some [''withAuth''],
      validationMiddleware = Some [''withValidation'']\<rparr>"

definition api_config :: config where
  "api_config =
     \<lparr>cfg_project = None, packageManager = None,
      cfg_checks = no_checks\<lparr>apiSecurity := Some api_settings\<rparr>,
      cfg_output = None\<rparr>"

definition users_dir :: fsnode where
  "users_dir = Dir [(''route.ts'', File ''export const GET = withAuth(withValidation(list))'')]"

definition health_dir :: fsnode where
  "health_dir =
     Dir [(''route.ts'', File ''export const GET = ok''),
          (''index.js'', File ''module.exports = {}'')]"

definition api_world :: world where
  "api_world =
     \<lparr>now = ''2024-01-01T00:00:00.000Z'', cwd = [''proj''], env = [],
      fs = Dir [(''proj'', Dir [(''app'', Dir [(''api'',
             Dir [(''users'', users_dir), (''health'', health_dir)])])])],
      audit = (\<lambda>command. Inl ''Command failed'')\<rparr>"

definition api_world_reordered :: world where
  "api_world_reordered =
     \<lparr>now = ''2024-01-01T00:00:00.000Z'', cwd = [''proj''], env = [],
      fs = Dir [(''proj'', Dir [(''app'', Dir [(''api'',
             Dir [(''health'', health_dir), (''users'', users_dir)])])])],
      audit = (\<lambda>command. Inl ''Command failed'')\<rparr>"

definition validation_gap_world :: world where
  "validation_gap_world =
     \<lparr>now = ''2024-01-01T00:00:00.000Z'', cwd = [''proj''], env = [],
      fs = Dir [(''proj'', Dir [(''app'', Dir [(''api'',
             Dir [(''route.ts'', File ''export const GET = withAuth(handler)'')])])])],
      audit = (\<lambda>command. Inl ''Command failed'')\<rparr>"

text \<open>
  The legacy sequence over a list of checks, as a recursion: each enabled check is run
  in turn and the first one that throws ends the sequence with its message and the
  accumulator as it then is.
\<close>

fun legacy_steps ::
  "config \<Rightarrow> world \<Rightarrow> (string \<times> (config \<Rightarrow> world \<Rightarrow> results \<Rightarrow> string + results)) list \<Rightarrow>
   results \<Rightarrow> (string \<times> results) + results" where
  "legacy_steps cfg w [] r = Inr r"
| "legacy_steps cfg w ((n, m) # es) r =
     (case legacy_when (config_enabled cfg n) (m cfg w) r of
        Inl thrown \<Rightarrow> Inl thrown
      | Inr r' \<Rightarrow> legacy_steps cfg w es r')"

section \<open>Properties\<close>

subsection \<open>The accumulator's check entries\<close>

lemma set_check_lookup:
  "map_of (checks (set_check k v r)) k' = (if k' = k then Some v else map_of (checks r) k')"
  by (simp add: set_check_def update_conv')

lemma set_check_fields:
  "vulnerabilities (set_check k v r) = vulnerabilities r"
  "warnings (set_check k v r) = warnings r"
  "recommendations (set_check k v r) = recommendations r"
  "timestamp (set_check k v r) = timestamp r"
  "res_project (set_check k v r) = res_project r"
  by (simp_all add: set_check_def)

subsection \<open>Dependency audit: thresholds\<close>

text \<open>
  When neither the moderate nor the low threshold is configured as 0, the status of an
  audit that ran is \<open>fail\<close> exactly when some tier's count exceeds its threshold.
\<close>

lemma dependency_audit_status:
  assumes "dependencyAudit (cfg_checks cfg) = Some dc"
    and "truthy (da_enabled dc)"
    and "audit w (str_or (packageManager cfg) ''npm'' @ '' '' @
           (case da_command dc of None \<Rightarrow> ''undefined'' | Some c \<Rightarrow> c)) = Inr data"
    and "t = (case severityThresholds dc of None \<Rightarrow> no_thresholds | Some x \<Rightarrow> x)"
    and "moderate t \<noteq> Some 0" and "low t \<noteq> Some 0"
  shows "\<exists>r' d. DependencyAudit_run cfg w r = Inr r' \<and>
           map_of (checks r') ''dependencyAudit'' =
             Some \<lparr>status =
               (if count_severity ''critical'' (vulnerabilities r') >
                     configured_threshold (critical t) 0 \<or>
                   count_severity ''high'' (vulnerabilities r') >
                     configured_threshold (high t) 0 \<or>
                   count_severity ''moderate'' (vulnerabilities r') >
                     configured_threshold (moderate t) 5 \<or>
                   count_severity ''low'' (vulnerabilities r') >
                     configured_threshold (low t) 10
                then ''fail'' else ''pass''), detail = d\<rparr>"
proof -
  have n: "num_or (critical t) 0 = configured_threshold (critical t) 0"
     "num_or (high t) 0 = configured_threshold (high t) 0"
     "num_or (moderate t) 5 = configured_threshold (moderate t) 5"
     "num_or (low t) 10 = configured_threshold (low t) 10"
    using assms(5,6) by (auto simp: num_or_def configured_threshold_def split: option.splits)
  show ?thesis
    using assms(1,2,3) n unfolding assms(4)
    by (simp add: DependencyAudit_run_def Let_def set_check_lookup set_check_fields
        exceedsThresholds_def)
qed

text \<open>
  C1. The dependency audit is to fail exactly when a tier's count strictly exceeds its
  configured threshold, also for a threshold configured as 0. With the moderate
  threshold configured as 0 and one moderate vulnerability reported, the count 1
  exceeds the configured threshold 0, yet the recorded status is \<open>pass\<close>: the 0 is
  replaced by the default 5.
\<close>

theorem dependency_audit_zero_threshold_passes:
  "map_of (checks (projr (DependencyAudit_run zero_moderate_config one_moderate_world
       (new_results zero_moderate_config one_moderate_world)))) ''dependencyAudit'' =
     Some \<lparr>status = ''pass'',
           detail = AuditDetail 1 0 0 1 0
             \<lparr>critical = Some 0, high = Some 0, moderate = Some 0, low = Some 10\<rparr>\<rparr> \<and>
   configured_threshold (Some 0) 5 < (1::nat)"
  by (simp add: DependencyAudit_run_def zero_moderate_config_def one_moderate_world_def
      no_checks_def new_results_def truthy_def str_or_def set_check_def
      push_vulnerabilities_def exceedsThresholds_def count_severity_def num_or_def
      configured_threshold_def)

subsection \<open>Every check writes only under its own name\<close>

lemma wrote_ownI:
  "checks r'' = checks r \<Longrightarrow> recommendations r'' = recommendations r \<Longrightarrow>
   status oc \<in> closed_statuses \<Longrightarrow> wrote_own n r (set_check n oc r'')"
  unfolding wrote_own_def by blast

lemma closed_simps [simp]:
  "''pass'' \<in> closed_statuses" "''warn'' \<in> closed_statuses"
  "''fail'' \<in> closed_statuses" "''error'' \<in> closed_statuses"
  by (simp_all add: closed_statuses_def)

lemma DependencyAudit_cases:
  "DependencyAudit_run cfg w r = Inr r' \<Longrightarrow>
     (if config_enabled cfg ''dependencyAudit'' then wrote_own ''dependencyAudit'' r r' else r' = r)"
  by (auto simp: DependencyAudit_run_def config_enabled_def Let_def
      intro!: wrote_ownI split: option.splits if_splits sum.splits)

lemma EnvironmentVariables_cases:
  "EnvironmentVariables_run cfg w r = Inr r' \<Longrightarrow>
     (if config_enabled cfg ''environmentVariables'' then wrote_own ''environmentVariables'' r r' else r' = r)"
  by (auto simp: EnvironmentVariables_run_def config_enabled_def Let_def
      intro!: wrote_ownI split: option.splits if_splits sum.splits prod.splits)

lemma SecurityHeaders_cases:
  "SecurityHeaders_run cfg w r = Inr r' \<Longrightarrow>
     (if config_enabled cfg ''securityHeaders'' then wrote_own ''securityHeaders'' r r' else r' = r)"
  by (auto simp: SecurityHeaders_run_def config_enabled_def Let_def
      intro!: wrote_ownI split: option.splits if_splits sum.splits)

lemma ApiSecurity_cases:
  "ApiSecurity_run cfg w r = Inr r' \<Longrightarrow>
     (if config_enabled cfg ''apiSecurity'' then wrote_own ''apiSecurity'' r r' else r' = r)"
  by (auto simp: ApiSecurity_run_def config_enabled_def Let_def
      intro!: wrote_ownI split: option.splits if_splits sum.splits prod.splits)

lemma DatabaseSecurity_cases:
  "DatabaseSecurity_run cfg w r = Inr r' \<Longrightarrow>
     (if config_enabled cfg ''databaseSecurity'' then wrote_own ''databaseSecurity'' r r' else r' = r)"
  by (auto simp: DatabaseSecurity_run_def config_enabled_def Let_def
      intro!: wrote_ownI split: option.splits if_splits sum.splits)

lemma registry_cases:
  assumes "(n, m) \<in> set checks_registry" and "m cfg w r = Inr r'"
  shows "if config_enabled cfg n then wrote_own n r r' else r' = r"
  using assms DependencyAudit_cases EnvironmentVariables_cases SecurityHeaders_cases
    ApiSecurity_cases DatabaseSecurity_cases
  unfolding checks_registry_def by fastforce

lemma registry_skip:
  assumes "(n, m) \<in> set checks_registry" and "\<not> config_enabled cfg n"
  shows "m cfg w r = Inr r"
  using assms unfolding checks_registry_def
  by (auto simp: config_enabled_def DependencyAudit_run_def EnvironmentVariables_run_def
      SecurityHeaders_run_def ApiSecurity_run_def DatabaseSecurity_run_def split: option.splits)

lemma run_check_cases:
  assumes "(n, m) \<in> set checks_registry"
  shows "if config_enabled cfg n then wrote_own n r (run_check cfg w r (n, m))
         else run_check cfg w r (n, m) = r"
proof (cases "config_enabled cfg n")
  case False
  then show ?thesis by (simp add: run_check_def)
next
  case True
  show ?thesis
  proof (cases "m cfg w r")
    case (Inl message)
    with True show ?thesis by (simp add: run_check_def wrote_ownI)
  next
    case (Inr r')
    with True registry_cases[OF assms Inr] show ?thesis by (simp add: run_check_def)
  qed
qed

lemma wrote_own_other:
  "wrote_own n r r' \<Longrightarrow> key \<noteq> n \<Longrightarrow> map_of (checks r') key = map_of (checks r) key"
  unfolding wrote_own_def by (auto simp: set_check_lookup)

lemma wrote_own_entry:
  "wrote_own n r r' \<Longrightarrow> \<exists>oc. map_of (checks r') n = Some oc \<and> status oc \<in> closed_statuses"
  unfolding wrote_own_def by (auto simp: set_check_lookup)

lemma run_check_other:
  assumes "(n, m) \<in> set checks_registry" and "key \<noteq> n"
  shows "map_of (checks (run_check cfg w r (n, m))) key = map_of (checks r) key"
  using run_check_cases[OF assms(1), of cfg r w] assms(2)
  by (auto simp: wrote_own_other split: if_splits)

lemma run_check_disabled:
  assumes "(n, m) \<in> set checks_registry" and "\<not> config_enabled cfg n"
  shows "run_check cfg w r (n, m) = r"
  using assms by (simp add: run_check_def)

lemma run_check_enabled:
  assumes "(n, m) \<in> set checks_registry" and "config_enabled cfg n"
  shows "\<exists>oc. map_of (checks (run_check cfg w r (n, m))) n = Some oc \<and> status oc \<in> closed_statuses"
  using run_check_cases[OF assms(1), of cfg r w] assms(2)
  by (auto dest: wrote_own_entry)

lemma run_check_present:
  assumes "(n, m) \<in> set checks_registry" and "map_of (checks r) key \<noteq> None"
  shows "map_of (checks (run_check cfg w r (n, m))) key \<noteq> None"
proof (cases "key = n")
  case False
  with assms show ?thesis by (simp add: run_check_other)
next
  case True
  show ?thesis
  proof (cases "config_enabled cfg n")
    case False
    with assms True show ?thesis by (simp add: run_check_disabled)
  next
    case en: True
    from run_check_enabled[OF assms(1) en, of w r] True show ?thesis by auto
  qed
qed

lemma run_check_closed:
  assumes "(n, m) \<in> set checks_registry"
    and "\<And>key oc. map_of (checks r) key = Some oc \<Longrightarrow> status oc \<in> closed_statuses"
    and "map_of (checks (run_check cfg w r (n, m))) key = Some oc"
  shows "status oc \<in> closed_statuses"
proof (cases "key = n \<and> config_enabled cfg n")
  case True
  with run_check_enabled[OF assms(1), of cfg w r] assms(3) show ?thesis by auto
next
  case False
  then have "map_of (checks (run_check cfg w r (n, m))) key = map_of (checks r) key"
    using assms(1) by (auto simp: run_check_other run_check_disabled)
  with assms(2,3) show ?thesis by simp
qed

subsection \<open>The orchestrator's loop\<close>

lemma run_checks_Cons: "run_checks cfg w (e # es) r = run_checks cfg w es (run_check cfg w r e)"
  by (simp add: run_checks_def)

lemma run_checks_Nil: "run_checks cfg w [] r = r"
  by (simp add: run_checks_def)

lemma run_checks_append:
  "run_checks cfg w (es @ es2) r = run_checks cfg w es2 (run_checks cfg w es r)"
  by (simp add: run_checks_def)

lemma run_checks_other:
  assumes "set es \<subseteq> set checks_registry" and "key \<notin> fst ` set es"
  shows "map_of (checks (run_checks cfg w es r)) key = map_of (checks r) key"
  using assms
proof (induction es arbitrary: r)
  case Nil
  then show ?case by (simp add: run_checks_Nil)
next
  case (Cons e es)
  obtain n m where e: "e = (n, m)" by (cases e)
  with Cons.prems have "(n, m) \<in> set checks_registry" "key \<noteq> n" by auto
  then have "map_of (checks (run_check cfg w r e)) key = map_of (checks r) key"
    unfolding e by (rule run_check_other)
  moreover have "map_of (checks (run_checks cfg w es (run_check cfg w r e))) key =
      map_of (checks (run_check cfg w r e)) key"
    using Cons.prems by (intro Cons.IH) auto
  ultimately show ?case by (simp add: run_checks_Cons)
qed

lemma run_checks_disabled:
  assumes "set es \<subseteq> set checks_registry" and "\<not> config_enabled cfg key"
  shows "map_of (checks (run_checks cfg w es r)) key = map_of (checks r) key"
  using assms
proof (induction es arbitrary: r)
  case Nil
  then show ?case by (simp add: run_checks_Nil)
next
  case (Cons e es)
  obtain n m where e: "e = (n, m)" by (cases e)
  with Cons.prems have mem: "(n, m) \<in> set checks_registry" by auto
  have "map_of (checks (run_check cfg w r e)) key = map_of (checks r) key"
  proof (cases "key = n")
    case True
    with Cons.prems(2) mem show ?thesis unfolding e by (simp add: run_check_disabled)
  next
    case False
    with mem show ?thesis unfolding e by (simp add: run_check_other)
  qed
  moreover have "map_of (checks (run_checks cfg w es (run_check cfg w r e))) key =
      map_of (checks (run_check cfg w r e)) key"
    using Cons.prems by (intro Cons.IH) auto
  ultimately show ?case by (simp add: run_checks_Cons)
qed

lemma run_checks_present:
  assumes "set es \<subseteq> set checks_registry" and "map_of (checks r) key \<noteq> None"
  shows "map_of (checks (run_checks cfg w es r)) key \<noteq> None"
  using assms
proof (induction es arbitrary: r)
  case Nil
  then show ?case by (simp add: run_checks_Nil)
next
  case (Cons e es)
  obtain n m where e: "e = (n, m)" by (cases e)
  with Cons.prems have mem: "(n, m) \<in> set checks_registry" by auto
  have "map_of (checks (run_check cfg w r e)) key \<noteq> None"
    unfolding e using mem Cons.prems(2) by (rule run_check_present)
  then show ?case using Cons.prems(1) by (simp add: run_checks_Cons Cons.IH)
qed

lemma run_checks_enabled:
  assumes "set es \<subseteq> set checks_registry" and "(n, m) \<in> set es" and "config_enabled cfg n"
  shows "map_of (checks (run_checks cfg w es r)) n \<noteq> None"
proof -
  from assms(2) obtain pre post where es: "es = pre @ (n, m) # post"
    by (auto simp: in_set_conv_decomp)
  have mem: "(n, m) \<in> set checks_registry" using assms(1,2) by auto
  have post: "set post \<subseteq> set checks_registry" using assms(1) es by auto
  have "map_of (checks (run_check cfg w (run_checks cfg w pre r) (n, m))) n \<noteq> None"
    using run_check_enabled[OF mem assms(3), of w "run_checks cfg w pre r"] by auto
  then show ?thesis
    unfolding es by (simp add: run_checks_append run_checks_Cons run_checks_present[OF post])
qed

lemma run_checks_closed:
  assumes "set es \<subseteq> set checks_registry"
    and "\<And>key oc. map_of (checks r) key = Some oc \<Longrightarrow> status oc \<in> closed_statuses"
    and "map_of (checks (run_checks cfg w es r)) key = Some oc"
  shows "status oc \<in> closed_statuses"
  using assms
proof (induction es arbitrary: r)
  case Nil
  then show ?case by (simp add: run_checks_Nil)
next
  case (Cons e es)
  obtain n m where e: "e = (n, m)" by (cases e)
  with Cons.prems have mem: "(n, m) \<in> set checks_registry" by auto
  have step: "\<And>key oc. map_of (checks (run_check cfg w r e)) key = Some oc \<Longrightarrow>
      status oc \<in> closed_statuses"
    unfolding e using mem Cons.prems(2) by (rule run_check_closed)
  show ?case
    using Cons.prems(1,3) by (intro Cons.IH[OF _ step]) (auto simp: run_checks_Cons)
qed

lemma generateRecommendations_checks: "checks (generateRecommendations cfg r) = checks r"
  by (simp add: generateRecommendations_def Let_def push_recommendation_def)

lemma new_results_checks: "map_of (checks (new_results cfg w)) key = None"
  by (simp add: new_results_def)

lemma registry_distinct: "distinct (map fst checks_registry)"
  by (simp add: checks_registry_def)

subsection \<open>Skipping, error isolation and the invariant of the check entries\<close>

text \<open>
  C5. A check whose \<^verbatim>\<open>enabled\<close> flag is false or absent (or whose settings are absent)
  is skipped: its own \<open>run\<close> returns the accumulator as it was, the orchestrator's
  loop body leaves the accumulator as it was, and after a full run the accumulator has
  no entry under the check's name, whereas a check that ran leaves one.
\<close>

theorem disabled_check_is_skipped:
  assumes "(n, m) \<in> set checks_registry"
  shows "(\<not> config_enabled cfg n \<longrightarrow>
            m cfg w r = Inr r \<and> run_check cfg w r (n, m) = r \<and>
            map_of (checks (fst (SecurityMonitor_run cfg w))) n = None) \<and>
         (config_enabled cfg n \<longrightarrow>
            map_of (checks (fst (SecurityMonitor_run cfg w))) n \<noteq> None)"
proof (intro conjI impI)
  assume off: "\<not> config_enabled cfg n"
  show "m cfg w r = Inr r" using assms off by (rule registry_skip)
  show "run_check cfg w r (n, m) = r" using assms off by (rule run_check_disabled)
  have "map_of (checks (run_checks cfg w checks_registry (new_results cfg w))) n =
      map_of (checks (new_results cfg w)) n"
    using off by (intro run_checks_disabled) auto
  then show "map_of (checks (fst (SecurityMonitor_run cfg w))) n = None"
    by (simp add: SecurityMonitor_run_def Let_def generateRecommendations_checks
        new_results_checks)
next
  assume on: "config_enabled cfg n"
  have "map_of (checks (run_checks cfg w checks_registry (new_results cfg w))) n \<noteq> None"
    using subset_refl assms on by (rule run_checks_enabled)
  then show "map_of (checks (fst (SecurityMonitor_run cfg w))) n \<noteq> None"
    by (simp add: SecurityMonitor_run_def Let_def generateRecommendations_checks)
qed

text \<open>
  With only the dependency audit configured, the API check is skipped and leaves no
  entry, while the dependency audit leaves one.
\<close>

theorem disabled_check_is_skipped_witness:
  "ApiSecurity_run zero_moderate_config one_moderate_world
      (new_results zero_moderate_config one_moderate_world) =
     Inr (new_results zero_moderate_config one_moderate_world) \<and>
   map_of (checks (fst (SecurityMonitor_run zero_moderate_config one_moderate_world)))
     ''apiSecurity'' = None \<and>
   map_of (checks (fst (SecurityMonitor_run zero_moderate_config one_moderate_world)))
     ''dependencyAudit'' \<noteq> None"
proof -
  have off: "\<not> config_enabled zero_moderate_config ''apiSecurity''"
    and on: "config_enabled zero_moderate_config ''dependencyAudit''"
    by (simp_all add: config_enabled_def zero_moderate_config_def no_checks_def truthy_def)
  have api: "(''apiSecurity'', ApiSecurity_run) \<in> set checks_registry"
    and dep: "(''dependencyAudit'', DependencyAudit_run) \<in> set checks_registry"
    by (simp_all add: checks_registry_def)
  from disabled_check_is_skipped[OF api, of zero_moderate_config one_moderate_world
      "new_results zero_moderate_config one_moderate_world"] off
  have "ApiSecurity_run zero_moderate_config one_moderate_world
        (new_results zero_moderate_config one_moderate_world) =
       Inr (new_results zero_moderate_config one_moderate_world) \<and>
     map_of (checks (fst (SecurityMonitor_run zero_moderate_config one_moderate_world)))
       ''apiSecurity'' = None"
    by blast
  moreover from disabled_check_is_skipped[OF dep, of zero_moderate_config one_moderate_world
      "new_results zero_moderate_config one_moderate_world"] on
  have "map_of (checks (fst (SecurityMonitor_run zero_moderate_config one_moderate_world)))
       ''dependencyAudit'' \<noteq> None"
    by blast
  ultimately show ?thesis by blast
qed

text \<open>
  C6. When the \<open>run\<close> of an enabled check throws, the orchestrator records
  \<^verbatim>\<open>{ status: 'error', error: message }\<close> under the check's name and goes on: the
  remaining checks run on that accumulator, then the recommendations are derived and
  the report is written from the result. The error entry is still there at the end,
  and every enabled check after it has an entry too.
\<close>

theorem orchestrator_isolates_errors:
  assumes "checks_registry = pre @ (n, m) # post"
    and "config_enabled cfg n"
    and "m cfg w (run_checks cfg w pre (new_results cfg w)) = Inl message"
  shows "run_checks cfg w (pre @ [(n, m)]) (new_results cfg w) =
           set_check n \<lparr>status = ''error'', detail = ErrorDetail message\<rparr>
             (run_checks cfg w pre (new_results cfg w)) \<and>
         fst (SecurityMonitor_run cfg w) =
           generateRecommendations cfg
             (run_checks cfg w post (run_checks cfg w (pre @ [(n, m)]) (new_results cfg w))) \<and>
         snd (SecurityMonitor_run cfg w) =
           generateReport cfg w (fst (SecurityMonitor_run cfg w)) \<and>
         map_of (checks (fst (SecurityMonitor_run cfg w))) n =
           Some \<lparr>status = ''error'', detail = ErrorDetail message\<rparr> \<and>
         (\<forall>(k, c) \<in> set post.
            config_enabled cfg k \<longrightarrow> map_of (checks (fst (SecurityMonitor_run cfg w))) k \<noteq> None)"
proof -
  let ?r0 = "new_results cfg w"
  let ?err = "\<lparr>status = ''error'', detail = ErrorDetail message\<rparr>"
  have step: "run_checks cfg w (pre @ [(n, m)]) ?r0 = set_check n ?err (run_checks cfg w pre ?r0)"
    using assms(2,3) by (simp add: run_checks_append run_checks_Cons run_checks_Nil run_check_def)
  have split: "run_checks cfg w checks_registry ?r0 =
      run_checks cfg w post (run_checks cfg w (pre @ [(n, m)]) ?r0)"
    unfolding assms(1) by (simp add: run_checks_append run_checks_Cons run_checks_Nil)
  have final: "fst (SecurityMonitor_run cfg w) =
      generateRecommendations cfg (run_checks cfg w post (run_checks cfg w (pre @ [(n, m)]) ?r0))"
    by (simp add: SecurityMonitor_run_def Let_def split)
  have report: "snd (SecurityMonitor_run cfg w) = generateReport cfg w (fst (SecurityMonitor_run cfg w))"
    by (simp add: SecurityMonitor_run_def Let_def)
  have post: "set post \<subseteq> set checks_registry" unfolding assms(1) by auto
  have "distinct (map fst (pre @ (n, m) # post))"
    using registry_distinct unfolding assms(1) .
  then have notin: "n \<notin> fst ` set post" by auto
  have kept: "map_of (checks (fst (SecurityMonitor_run cfg w))) n = Some ?err"
    unfolding final generateRecommendations_checks
    by (simp add: run_checks_other[OF post notin] step set_check_lookup)
  have rest: "\<forall>(k, c) \<in> set post.
      config_enabled cfg k \<longrightarrow> map_of (checks (fst (SecurityMonitor_run cfg w))) k \<noteq> None"
    unfolding final generateRecommendations_checks
    using run_checks_enabled[OF post] by auto
  from step final report kept rest show ?thesis by blast
qed

text \<open>
  The headers file is a directory: reading it throws, the error is recorded, and the
  database check after it still records its outcome.
\<close>

theorem orchestrator_isolates_errors_witness:
  "map_of (checks (fst (SecurityMonitor_run headers_dir_config headers_dir_world)))
     ''securityHeaders'' =
     Some \<lparr>status = ''error'',
           detail = ErrorDetail ''EISDIR: illegal operation on a directory, read''\<rparr> \<and>
   map_of (checks (fst (SecurityMonitor_run headers_dir_config headers_dir_world)))
     ''databaseSecurity'' \<noteq> None"
proof -
  have reg: "checks_registry =
      [(''dependencyAudit'', DependencyAudit_run), (''environmentVariables'', EnvironmentVariables_run)] @
      (''securityHeaders'', SecurityHeaders_run) #
      [(''apiSecurity'', ApiSecurity_run), (''databaseSecurity'', DatabaseSecurity_run)]"
    by (simp add: checks_registry_def)
  have en: "config_enabled headers_dir_config ''securityHeaders''"
    "config_enabled headers_dir_config ''databaseSecurity''"
    by (simp_all add: config_enabled_def headers_dir_config_def no_checks_def truthy_def)
  have thrown: "SecurityHeaders_run headers_dir_config headers_dir_world
      (run_checks headers_dir_config headers_dir_world
         [(''dependencyAudit'', DependencyAudit_run), (''environmentVariables'', EnvironmentVariables_run)]
         (new_results headers_dir_config headers_dir_world)) =
      Inl ''EISDIR: illegal operation on a directory, read''"
    by (simp add: SecurityHeaders_run_def headers_dir_config_def headers_dir_world_def
        no_checks_def truthy_def str_or_def path_join_def path_step_def existsSync_def
        readFileSync_def Let_def)
  note th = orchestrator_isolates_errors[OF reg en(1) thrown]
  from th have kept: "map_of (checks (fst (SecurityMonitor_run headers_dir_config headers_dir_world)))
      ''securityHeaders'' =
      Some \<lparr>status = ''error'',
            detail = ErrorDetail ''EISDIR: illegal operation on a directory, read''\<rparr>"
    by (elim conjE)
  from th have "\<forall>(k, c) \<in> set [(''apiSecurity'', ApiSecurity_run),
        (''databaseSecurity'', DatabaseSecurity_run)].
      config_enabled headers_dir_config k \<longrightarrow>
      map_of (checks (fst (SecurityMonitor_run headers_dir_config headers_dir_world))) k \<noteq> None"
    by (elim conjE)
  with en(2) have "map_of (checks (fst (SecurityMonitor_run headers_dir_config headers_dir_world)))
      ''databaseSecurity'' \<noteq> None"
    by simp
  with kept show ?thesis by (rule conjI)
qed

text \<open>
  C7. After any number \<open>k\<close> of the checks, every entry of \<open>checks\<close> has a status
  among \<open>pass\<close>, \<open>warn\<close>, \<open>fail\<close>, \<open>error\<close>; the next check changes no entry but the one
  under its own name; and deriving the recommendations changes no entry.
\<close>

theorem checks_entries_invariant:
  assumes "k \<le> length checks_registry"
  shows "(\<forall>key oc.
            map_of (checks (run_checks cfg w (take k checks_registry) (new_results cfg w))) key =
              Some oc \<longrightarrow> status oc \<in> closed_statuses) \<and>
         (\<forall>key. k < length checks_registry \<longrightarrow> key \<noteq> fst (checks_registry ! k) \<longrightarrow>
            map_of (checks (run_checks cfg w (take (Suc k) checks_registry) (new_results cfg w)))
              key =
            map_of (checks (run_checks cfg w (take k checks_registry) (new_results cfg w))) key) \<and>
         checks (generateRecommendations cfg
                  (run_checks cfg w (take k checks_registry) (new_results cfg w))) =
           checks (run_checks cfg w (take k checks_registry) (new_results cfg w))"
proof (intro conjI allI impI)
  fix key oc
  assume "map_of (checks (run_checks cfg w (take k checks_registry) (new_results cfg w))) key = Some oc"
  then show "status oc \<in> closed_statuses"
    by (rule run_checks_closed[rotated 2]) (auto simp: new_results_checks dest: in_set_takeD)
next
  fix key
  assume k: "k < length checks_registry" and key: "key \<noteq> fst (checks_registry ! k)"
  obtain n m where e: "checks_registry ! k = (n, m)" by (cases "checks_registry ! k")
  with k have mem: "(n, m) \<in> set checks_registry" by (metis nth_mem)
  from key e have "key \<noteq> n" by simp
  with mem show "map_of (checks (run_checks cfg w (take (Suc k) checks_registry) (new_results cfg w))) key =
      map_of (checks (run_checks cfg w (take k checks_registry) (new_results cfg w))) key"
    using k e by (simp add: take_Suc_conv_app_nth run_checks_append run_checks_Cons
        run_checks_Nil run_check_other)
next
  show "checks (generateRecommendations cfg
                  (run_checks cfg w (take k checks_registry) (new_results cfg w))) =
           checks (run_checks cfg w (take k checks_registry) (new_results cfg w))"
    by (rule generateRecommendations_checks)
qed

text \<open>
  After three checks the headers entry is the recorded error; the API check leaves it
  alone.
\<close>

theorem checks_entries_invariant_witness:
  "status (the (map_of (checks (run_checks headers_dir_config headers_dir_world
       (take 3 checks_registry) (new_results headers_dir_config headers_dir_world)))
       ''securityHeaders'')) \<in> closed_statuses \<and>
   map_of (checks (run_checks headers_dir_config headers_dir_world
       (take (Suc 3) checks_registry) (new_results headers_dir_config headers_dir_world)))
     ''securityHeaders'' =
   map_of (checks (run_checks headers_dir_config headers_dir_world
       (take 3 checks_registry) (new_results headers_dir_config headers_dir_world)))
     ''securityHeaders''"
proof -
  let ?r = "run_checks headers_dir_config headers_dir_world
       (take 3 checks_registry) (new_results headers_dir_config headers_dir_world)"
  have le: "3 \<le> length checks_registry" by (simp add: checks_registry_def)
  note th = checks_entries_invariant[OF le, of headers_dir_config headers_dir_world]
  have ev: "map_of (checks ?r) ''securityHeaders'' =
      Some \<lparr>status = ''error'',
            detail = ErrorDetail ''EISDIR: illegal operation on a directory, read''\<rparr>"
    by (simp add: checks_registry_def run_checks_def run_check_def config_enabled_def
        SecurityHeaders_run_def headers_dir_config_def headers_dir_world_def
        no_checks_def truthy_def str_or_def path_join_def path_step_def existsSync_def
        readFileSync_def Let_def set_check_lookup new_results_def)
  from th ev have "status (the (map_of (checks ?r) ''securityHeaders'')) \<in> closed_statuses"
    by (metis option.sel)
  moreover have "3 < length checks_registry" "''securityHeaders'' \<noteq> fst (checks_registry ! 3)"
    by (simp_all add: checks_registry_def)
  with th have "map_of (checks (run_checks headers_dir_config headers_dir_world
       (take (Suc 3) checks_registry) (new_results headers_dir_config headers_dir_world)))
     ''securityHeaders'' = map_of (checks ?r) ''securityHeaders''"
    by blast
  ultimately show ?thesis by (rule conjI)
qed

subsection \<open>The recommendation deriver\<close>


lemma wrote_own_recommendations:
  "wrote_own n r r' \<Longrightarrow> recommendations r' = recommendations r"
  unfolding wrote_own_def by (auto simp: set_check_fields)

lemma run_check_recommendations:
  assumes "(n, m) \<in> set checks_registry"
  shows "recommendations (run_check cfg w r (n, m)) = recommendations r"
  using run_check_cases[OF assms, of cfg r w]
  by (auto simp: wrote_own_recommendations split: if_splits)

lemma run_checks_recommendations:
  assumes "set es \<subseteq> set checks_registry"
  shows "recommendations (run_checks cfg w es r) = recommendations r"
  using assms
proof (induction es arbitrary: r)
  case Nil
  then show ?case by (simp add: run_checks_Nil)
next
  case (Cons e es)
  obtain n m where e: "e = (n, m)" by (cases e)
  with Cons.prems have "(n, m) \<in> set checks_registry" by auto
  then have "recommendations (run_check cfg w r e) = recommendations r"
    unfolding e by (rule run_check_recommendations)
  then show ?case using Cons.prems by (simp add: run_checks_Cons Cons.IH)
qed



subsection \<open>The legacy monolith and the modules\<close>

lemma legacy_runDependencyAudit_eq: "legacy_runDependencyAudit cfg w r = DependencyAudit_run cfg w r"
  unfolding legacy_runDependencyAudit_def DependencyAudit_run_def by (rule refl)

lemma legacy_checkEnvironmentVariables_eq:
  "legacy_checkEnvironmentVariables cfg w r = EnvironmentVariables_run cfg w r"
  unfolding legacy_checkEnvironmentVariables_def EnvironmentVariables_run_def by (rule refl)

lemma legacy_checkSecurityHeaders_eq:
  "legacy_checkSecurityHeaders cfg w r = SecurityHeaders_run cfg w r"
  unfolding legacy_checkSecurityHeaders_def SecurityHeaders_run_def by (rule refl)

lemma legacy_checkApiSecurity_eq: "legacy_checkApiSecurity cfg w r = ApiSecurity_run cfg w r"
  unfolding legacy_checkApiSecurity_def ApiSecurity_run_def legacy_findApiFiles_def
    findApiFiles_def by (rule refl)

lemma legacy_checkDatabaseSecurity_eq:
  "legacy_checkDatabaseSecurity cfg w r = DatabaseSecurity_run cfg w r"
  unfolding legacy_checkDatabaseSecurity_def DatabaseSecurity_run_def by (rule refl)

lemma legacy_generateRecommendations_eq:
  "legacy_generateRecommendations cfg r = generateRecommendations cfg r"
  unfolding legacy_generateRecommendations_def generateRecommendations_def by (rule refl)

lemma legacy_generateReport_eq: "legacy_generateReport cfg w r = generateReport cfg w r"
  unfolding legacy_generateReport_def generateReport_def by (rule refl)

lemma legacy_new_results_eq: "legacy_new_results cfg w = new_results cfg w"
  unfolding legacy_new_results_def new_results_def by (rule refl)

lemmas legacy_eqs =
  legacy_runDependencyAudit_eq legacy_checkEnvironmentVariables_eq
  legacy_checkSecurityHeaders_eq legacy_checkApiSecurity_eq legacy_checkDatabaseSecurity_eq
  legacy_generateRecommendations_eq legacy_generateReport_eq legacy_new_results_eq

lemma legacy_when_run_check:
  "legacy_when (config_enabled cfg n) (m cfg w) r = Inr r' \<Longrightarrow> run_check cfg w r (n, m) = r'"
  by (auto simp: legacy_when_def run_check_def split: if_splits sum.splits)

text \<open>
  Whenever the legacy run completes, the modular run ends with the same accumulator
  and writes the same report.
\<close>

lemma legacy_completed_agrees:
  assumes "legacy_run cfg w = Completed r rep"
  shows "SecurityMonitor_run cfg w = (r, rep)"
proof -
  from assms obtain r1 r2 r3 r4 r5 where
    s1: "legacy_when (config_enabled cfg ''dependencyAudit'') (DependencyAudit_run cfg w)
           (new_results cfg w) = Inr r1" and
    s2: "legacy_when (config_enabled cfg ''environmentVariables'')
           (EnvironmentVariables_run cfg w) r1 = Inr r2" and
    s3: "legacy_when (config_enabled cfg ''securityHeaders'') (SecurityHeaders_run cfg w) r2 =
           Inr r3" and
    s4: "legacy_when (config_enabled cfg ''apiSecurity'') (ApiSecurity_run cfg w) r3 = Inr r4" and
    s5: "legacy_when (config_enabled cfg ''databaseSecurity'') (DatabaseSecurity_run cfg w) r4 =
           Inr r5" and
    fin: "r = generateRecommendations cfg r5" "rep = generateReport cfg w r"
    unfolding legacy_run_def
    by (auto simp: legacy_eqs[abs_def] Let_def split: sum.splits prod.splits)
  have "run_checks cfg w checks_registry (new_results cfg w) = r5"
    by (simp add: checks_registry_def run_checks_def
        legacy_when_run_check[of cfg _ DependencyAudit_run w, OF s1]
        legacy_when_run_check[of cfg _ EnvironmentVariables_run w, OF s2]
        legacy_when_run_check[of cfg _ SecurityHeaders_run w, OF s3]
        legacy_when_run_check[of cfg _ ApiSecurity_run w, OF s4]
        legacy_when_run_check[of cfg _ DatabaseSecurity_run w, OF s5])
  with fin show ?thesis by (simp add: SecurityMonitor_run_def Let_def)
qed

text \<open>
  C10 as stated fails where a check throws. With the headers file a directory, the
  legacy run is rejected at the headers check with an empty \<open>checks\<close> mapping, while
  the modular run records the error and goes on to the database check.
\<close>

theorem legacy_rejects_where_modules_continue:
  "checks (legacy_accumulator (legacy_run headers_dir_config headers_dir_world)) = [] \<and>
   checks (fst (SecurityMonitor_run headers_dir_config headers_dir_world)) =
     [(''securityHeaders'',
       \<lparr>status = ''error'',
        detail = ErrorDetail ''EISDIR: illegal operation on a directory, read''\<rparr>),
      (''databaseSecurity'',
       \<lparr>status = ''pass'', detail = DbDetail [] ''lib/database.ts''\<rparr>)] \<and>
   legacy_accumulator (legacy_run headers_dir_config headers_dir_world) \<noteq>
     fst (SecurityMonitor_run headers_dir_config headers_dir_world)"
proof -
  have l: "legacy_run headers_dir_config headers_dir_world =
      Rejected ''EISDIR: illegal operation on a directory, read''
        (new_results headers_dir_config headers_dir_world)"
    by (simp add: legacy_run_def legacy_when_def config_enabled_def headers_dir_config_def
        no_checks_def truthy_def legacy_checkSecurityHeaders_def headers_dir_world_def
        str_or_def Let_def path_join_def path_step_def existsSync_def readFileSync_def
        legacy_new_results_def new_results_def)
  have m: "checks (fst (SecurityMonitor_run headers_dir_config headers_dir_world)) =
     [(''securityHeaders'',
       \<lparr>status = ''error'',
        detail = ErrorDetail ''EISDIR: illegal operation on a directory, read''\<rparr>),
      (''databaseSecurity'',
       \<lparr>status = ''pass'', detail = DbDetail [] ''lib/database.ts''\<rparr>)]"
    by (simp add: SecurityMonitor_run_def generateRecommendations_checks checks_registry_def
        run_checks_def run_check_def config_enabled_def headers_dir_config_def
        no_checks_def truthy_def SecurityHeaders_run_def DatabaseSecurity_run_def
        headers_dir_world_def str_or_def list_or_def Let_def path_join_def path_step_def
        existsSync_def readFileSync_def new_results_def set_check_def securityIssues_of_def)
  have a: "checks (legacy_accumulator (legacy_run headers_dir_config headers_dir_world)) = []"
    by (simp add: l legacy_accumulator_def new_results_def)
  from a m have "checks (legacy_accumulator (legacy_run headers_dir_config headers_dir_world)) \<noteq>
      checks (fst (SecurityMonitor_run headers_dir_config headers_dir_world))"
    by simp
  then have "legacy_accumulator (legacy_run headers_dir_config headers_dir_world) \<noteq>
     fst (SecurityMonitor_run headers_dir_config headers_dir_world)"
    by metis
  with a m show ?thesis by blast
qed

subsection \<open>Environment variables\<close>

lemma foldl_required_step:
  "foldl (required_step w m) (mi, ins) vars =
     (mi @ filter (\<lambda>v. case getenv w v of None \<Rightarrow> True | Some x \<Rightarrow> x = []) vars,
      ins @ filter (\<lambda>v. case getenv w v of None \<Rightarrow> False
                         | Some x \<Rightarrow> x \<noteq> [] \<and> length x < m) vars)"
  by (induction vars arbitrary: mi ins) (auto simp: required_step_def split: option.splits)

lemma foldl_pattern_step:
  "foldl (pattern_step ps m) acc es =
     acc @ map fst (filter (\<lambda>(k, v). v \<noteq> [] \<and>
              list_ex (\<lambda>p. str_includes (toLowerCase v) p) ps \<and> length v < m * 2) es)"
proof (induction es arbitrary: acc)
  case Nil
  then show ?case by simp
next
  case (Cons e es)
  obtain k v where e: "e = (k, v)" by (cases e)
  show ?case
    unfolding e by (simp add: Cons.IH) (simp add: pattern_step_def)
qed

lemma EnvironmentVariables_run_enabled:
  assumes "environmentVariables (cfg_checks cfg) = Some ec" and "truthy (env_enabled ec)"
  shows "EnvironmentVariables_run cfg w r =
     Inr (set_check ''environmentVariables''
       \<lparr>status =
          (if filter (\<lambda>v. case getenv w v of None \<Rightarrow> True | Some x \<Rightarrow> x = [])
                (list_or (env_required ec) []) = [] \<and>
              filter (\<lambda>v. case getenv w v of None \<Rightarrow> False
                    | Some x \<Rightarrow> x \<noteq> [] \<and> length x < num_or (minLength ec) 10)
                (list_or (env_required ec) []) @ pattern_flagged ec w = []
           then ''pass'' else ''warn''),
        detail = EnvDetail
          (filter (\<lambda>v. case getenv w v of None \<Rightarrow> True | Some x \<Rightarrow> x = [])
             (list_or (env_required ec) []))
          (filter (\<lambda>v. case getenv w v of None \<Rightarrow> False
                    | Some x \<Rightarrow> x \<noteq> [] \<and> length x < num_or (minLength ec) 10)
             (list_or (env_required ec) []) @ pattern_flagged ec w)
          (length (list_or (env_required ec) []) + length (list_or (env_optional ec) []))\<rparr> r)"
  using assms
  by (simp add: EnvironmentVariables_run_def Let_def foldl_required_step
      foldl_pattern_step[where acc = "[]"] foldl_pattern_step[where acc = "filter _ _"]
      pattern_flagged_def)

lemma pattern_flagged_iff:
  assumes "(key, value) \<in> set (env w)" and "distinct (map fst (env w))"
  shows "key \<in> set (pattern_flagged ec w) \<longleftrightarrow>
     value \<noteq> [] \<and>
     list_ex (\<lambda>p. str_includes (toLowerCase value) p) (insecurePatterns_of ec) \<and>
     length value < num_or (minLength ec) 10 * 2"
proof -
  let ?P = "\<lambda>v. v \<noteq> [] \<and>
     list_ex (\<lambda>p. str_includes (toLowerCase v) p) (insecurePatterns_of ec) \<and>
     length v < num_or (minLength ec) 10 * 2"
  have uniq: "v = value" if "(key, v) \<in> set (env w)" for v
    using assms(2) that assms(1) by (rule eq_key_imp_eq_value)
  have "key \<in> set (pattern_flagged ec w) \<longleftrightarrow> (\<exists>v. (key, v) \<in> set (env w) \<and> ?P v)"
    by (force simp: pattern_flagged_def foldl_pattern_step)
  also have "\<dots> \<longleftrightarrow> ?P value"
    using assms(1) uniq by blast
  finally show ?thesis .
qed

lemma configured_minLength:
  "minLength ec \<noteq> Some 0 \<Longrightarrow>
   num_or (minLength ec) 10 = (case minLength ec of None \<Rightarrow> 10 | Some n \<Rightarrow> n)"
  by (simp add: num_or_def split: option.splits)

text \<open>
  What the insecure-pattern rule computes. For a variable of the process environment
  (required or not) and a configured minimum length other than 0, the rule pushes the
  variable's name onto the \<open>insecure\<close> list exactly when its value is not empty, the
  value in lower case contains one of the configured patterns as it is written, and
  the value is shorter than twice the minimum length (10 when none is configured). A
  value at least twice the minimum length is never flagged by the rule. The \<open>insecure\<close>
  list of the outcome ends with the names the rule pushed.
\<close>

theorem insecure_pattern_rule:
  assumes "environmentVariables (cfg_checks cfg) = Some ec"
    and "truthy (env_enabled ec)"
    and "minLength ec \<noteq> Some 0"
    and "(key, value) \<in> set (env w)"
    and "distinct (map fst (env w))"
  shows "(\<exists>st missing short checked.
            EnvironmentVariables_run cfg w r =
              Inr (set_check ''environmentVariables''
                \<lparr>status = st,
                 detail = EnvDetail missing (short @ pattern_flagged ec w) checked\<rparr> r)) \<and>
         (key \<in> set (pattern_flagged ec w) \<longleftrightarrow>
            value \<noteq> [] \<and>
            (\<exists>p \<in> set (insecurePatterns_of ec). str_includes (toLowerCase value) p) \<and>
            length value < 2 * (case minLength ec of None \<Rightarrow> 10 | Some n \<Rightarrow> n)) \<and>
         (2 * (case minLength ec of None \<Rightarrow> 10 | Some n \<Rightarrow> n) \<le> length value \<longrightarrow>
            key \<notin> set (pattern_flagged ec w))"
proof -
  have a: "\<exists>st missing short checked.
            EnvironmentVariables_run cfg w r =
              Inr (set_check ''environmentVariables''
                \<lparr>status = st,
                 detail = EnvDetail missing (short @ pattern_flagged ec w) checked\<rparr> r)"
    unfolding EnvironmentVariables_run_enabled[OF assms(1,2)] by blast
  have b: "key \<in> set (pattern_flagged ec w) \<longleftrightarrow>
            value \<noteq> [] \<and>
            (\<exists>p \<in> set (insecurePatterns_of ec). str_includes (toLowerCase value) p) \<and>
            length value < 2 * (case minLength ec of None \<Rightarrow> 10 | Some n \<Rightarrow> n)"
    unfolding pattern_flagged_iff[OF assms(4,5)] configured_minLength[OF assms(3)]
    by (simp add: list_ex_iff mult.commute)
  from b have c: "2 * (case minLength ec of None \<Rightarrow> 10 | Some n \<Rightarrow> n) \<le> length value \<longrightarrow>
            key \<notin> set (pattern_flagged ec w)"
    by simp
  from a b c show ?thesis by blast
qed

lemma lower_secret: "toLowerCase ''secret'' = ''secret''"
  by (simp add: toLowerCase_def lower_char_def)

text \<open>
  The short value \<open>secret\<close> of \<open>SESSION\<close> is flagged.
\<close>

theorem insecure_pattern_rule_witness:
  "''SESSION'' \<in> set (pattern_flagged secure_required_env session_world)"
proof -
  have "''SESSION'' \<in> set (pattern_flagged secure_required_env session_world) \<longleftrightarrow>
      ''secret'' \<noteq> [] \<and>
      (\<exists>p \<in> set (insecurePatterns_of secure_required_env).
          str_includes (toLowerCase ''secret'') p) \<and>
      length ''secret'' <
        2 * (case minLength secure_required_env of None \<Rightarrow> 10 | Some n \<Rightarrow> n)"
    using insecure_pattern_rule[of secure_required_config secure_required_env
        "''SESSION''" "''secret''" session_world "new_results secure_required_config session_world"]
    by (simp add: secure_required_config_def secure_required_env_def no_checks_def truthy_def
        session_world_def)
  then show ?thesis
    by (simp add: lower_secret insecurePatterns_of_def secure_required_env_def list_or_def)
qed

lemma lower_KEY: "toLowerCase ''KEY'' = ''key''"
  by code_simp

lemma lower_my_key: "toLowerCase ''my-key'' = ''my-key''"
  by (simp add: toLowerCase_def lower_char_def)

lemma str_includes_Nil: "str_includes [] p \<longleftrightarrow> p = []"
  by simp

text \<open>
  With patterns that are written in lower case and are not empty, and a configured
  minimum length other than 0, the rule flags a variable exactly when its value
  contains a pattern case-insensitively and is shorter than twice the minimum length.
\<close>

lemma insecure_pattern_rule_lower_case_patterns:
  assumes "minLength ec \<noteq> Some 0"
    and "(key, value) \<in> set (env w)"
    and "distinct (map fst (env w))"
    and "\<And>p. p \<in> set (insecurePatterns_of ec) \<Longrightarrow> toLowerCase p = p \<and> p \<noteq> []"
  shows "key \<in> set (pattern_flagged ec w) \<longleftrightarrow>
     (\<exists>p \<in> set (insecurePatterns_of ec). contains_ci value p) \<and>
     length value < 2 * (case minLength ec of None \<Rightarrow> 10 | Some n \<Rightarrow> n)"
proof -
  have ci: "contains_ci value p \<longleftrightarrow> str_includes (toLowerCase value) p"
    if "p \<in> set (insecurePatterns_of ec)" for p
    using assms(4)[OF that] by (simp add: contains_ci_def)
  have ne: "value \<noteq> []"
    if "p \<in> set (insecurePatterns_of ec)" "str_includes (toLowerCase value) p" for p
  proof
    assume "value = []"
    with that(2) have "p = []" by (simp add: toLowerCase_def)
    with assms(4)[OF that(1)] show False by simp
  qed
  show ?thesis
    unfolding pattern_flagged_iff[OF assms(2,3)] configured_minLength[OF assms(1)]
    using ci ne by (auto simp: list_ex_iff mult.commute)
qed

text \<open>
  C4. The rule is to flag a variable whose value contains a configured insecure
  substring case-insensitively and is shorter than twice the minimum length. With the
  pattern \<open>KEY\<close> configured and the minimum length 10, the value \<open>my-key\<close> of \<open>TOKEN\<close>
  contains the pattern case-insensitively and has 6 characters, fewer than 20; yet the
  rule does not flag \<open>TOKEN\<close> and the check passes with an empty \<open>insecure\<close> list: the
  value is put in lower case, the pattern is not.
\<close>

theorem uppercase_pattern_never_matches:
  "''TOKEN'' \<notin> set (pattern_flagged upper_pattern_env token_world) \<and>
   list_ex (contains_ci ''my-key'') (insecurePatterns_of upper_pattern_env) \<and>
   length ''my-key'' < 2 * (10::nat) \<and> minLength upper_pattern_env = Some 10 \<and>
   EnvironmentVariables_run upper_pattern_config token_world
     (new_results upper_pattern_config token_world) =
   Inr (set_check ''environmentVariables''
     \<lparr>status = ''pass'', detail = EnvDetail [] [] 0\<rparr>
     (new_results upper_pattern_config token_world))"
  by (simp add: pattern_flagged_def pattern_step_def upper_pattern_env_def token_world_def
      insecurePatterns_of_def list_or_def contains_ci_def lower_KEY lower_my_key num_or_def
      EnvironmentVariables_run_def upper_pattern_config_def no_checks_def truthy_def Let_def)






subsection \<open>File discovery\<close>

lemma lookup_append:
  "lookup t (p @ q) = (case lookup t p of None \<Rightarrow> None | Some n \<Rightarrow> lookup n q)"
proof (induction p arbitrary: t)
  case Nil
  then show ?case by simp
next
  case (Cons x p)
  show ?case
  proof (cases t)
    case (File c)
    then show ?thesis by simp
  next
    case (Dir items)
    then show ?thesis by (simp add: Cons.IH split: option.splits)
  qed
qed

lemma lookup_Dir_Cons:
  "lookup (Dir ((n, t) # rest)) (x # xs) =
     (if x = n then lookup t xs else lookup (Dir rest) (x # xs))"
  by simp

lemma lookup_Dir_absent:
  "x \<notin> fst ` set rest \<Longrightarrow> lookup (Dir rest) (x # xs) = None"
  by (simp add: map_of_eq_None_iff[THEN iffD2])

lemma lookup_File_iff: "lookup (File c) p = Some (File c') \<longleftrightarrow> p = [] \<and> c' = c"
  by (cases p) auto

lemma wf_items_iff:
  "wf_items items \<longleftrightarrow> distinct (map fst items) \<and> (\<forall>(n, t) \<in> set items. wf_fs t)"
  by (induction items rule: wf_items.induct) auto

lemma readDir_head:
  "f \<in> set (readDir cur items pats) \<Longrightarrow> \<exists>x xs. f = cur @ x # xs \<and> x \<in> fst ` set items"
proof (induction cur items pats arbitrary: f rule: readDir.induct)
  case (1 currentDir pats)
  then show ?case by simp
next
  case (2 currentDir item items rest pats)
  from "2.prems" consider
    (sub) "f \<in> set (readDir (currentDir @ [item]) items pats)" |
    (rest) "f \<in> set (readDir currentDir rest pats)"
    by auto
  then show ?case
  proof cases
    case sub
    from "2.IH"(1)[OF sub] obtain x xs where "f = (currentDir @ [item]) @ x # xs" by blast
    then have "f = currentDir @ item # (x # xs)" by simp
    then show ?thesis by auto
  next
    case rest
    from "2.IH"(2)[OF rest] show ?thesis by auto
  qed
next
  case (3 currentDir item content rest pats)
  from "3.prems" consider
    (here) "f = currentDir @ [item]" |
    (rest) "f \<in> set (readDir currentDir rest pats)"
    by (auto split: if_splits)
  then show ?case
  proof cases
    case here
    then show ?thesis by auto
  next
    case rest
    from "3.IH"[OF rest] show ?thesis by auto
  qed
qed

lemma lookup_Dir_Some_head:
  "lookup (Dir rest) (x # xs) = Some n \<Longrightarrow> x \<in> fst ` set rest"
  by (cases "map_of rest x") (force dest!: map_of_SomeD)+

lemma readDir_iff:
  assumes "wf_items items"
  shows "f \<in> set (readDir cur items pats) \<longleftrightarrow>
     (\<exists>q c. f = cur @ q \<and> q \<noteq> [] \<and> lookup (Dir items) q = Some (File c) \<and>
            last q \<in> set pats)"
  using assms
proof (induction cur items pats arbitrary: f rule: readDir.induct)
  case (1 currentDir pats)
  have "lookup (Dir []) q \<noteq> Some (File c)" if "q \<noteq> []" for q c
    using that by (cases q) auto
  then show ?case by auto
next
  case (2 currentDir item items rest pats)
  from "2.prems" have fresh: "item \<notin> fst ` set rest"
    and wsub: "wf_items items" and wrest: "wf_items rest"
    by auto
  note ih1 = "2.IH"(1)[OF wsub] and ih2 = "2.IH"(2)[OF wrest]
  show ?case
  proof
    assume "f \<in> set (readDir currentDir ((item, Dir items) # rest) pats)"
    then consider
      (sub) "f \<in> set (readDir (currentDir @ [item]) items pats)" |
      (rest) "f \<in> set (readDir currentDir rest pats)"
      by auto
    then show "\<exists>q c. f = currentDir @ q \<and> q \<noteq> [] \<and>
        lookup (Dir ((item, Dir items) # rest)) q = Some (File c) \<and> last q \<in> set pats"
    proof cases
      case sub
      then obtain q c where q: "f = (currentDir @ [item]) @ q" "q \<noteq> []"
        "lookup (Dir items) q = Some (File c)" "last q \<in> set pats"
        unfolding ih1 by blast
      then have "f = currentDir @ (item # q)" "item # q \<noteq> []"
        "lookup (Dir ((item, Dir items) # rest)) (item # q) = Some (File c)"
        "last (item # q) \<in> set pats"
        by simp_all
      then show ?thesis by blast
    next
      case rest
      then obtain q c where q: "f = currentDir @ q" "q \<noteq> []"
        "lookup (Dir rest) q = Some (File c)" "last q \<in> set pats"
        unfolding ih2 by blast
      from q(2) obtain x xs where qx: "q = x # xs" by (cases q) auto
      from q(3)[unfolded qx] have "x \<in> fst ` set rest" by (rule lookup_Dir_Some_head)
      with fresh have "x \<noteq> item" by auto
      with q(3) qx have "lookup (Dir ((item, Dir items) # rest)) q = Some (File c)"
        by simp
      with q show ?thesis by blast
    qed
  next
    assume "\<exists>q c. f = currentDir @ q \<and> q \<noteq> [] \<and>
        lookup (Dir ((item, Dir items) # rest)) q = Some (File c) \<and> last q \<in> set pats"
    then obtain q c where q: "f = currentDir @ q" "q \<noteq> []"
      "lookup (Dir ((item, Dir items) # rest)) q = Some (File c)" "last q \<in> set pats"
      by blast
    from q(2) obtain x xs where qx: "q = x # xs" by (cases q) auto
    show "f \<in> set (readDir currentDir ((item, Dir items) # rest) pats)"
    proof (cases "x = item")
      case True
      with q(3) qx have l: "lookup (Dir items) xs = Some (File c)" by simp
      then have ne: "xs \<noteq> []" by auto
      with q(4) qx have "last xs \<in> set pats" by simp
      moreover from q(1) qx True have "f = (currentDir @ [item]) @ xs" by simp
      ultimately have "f \<in> set (readDir (currentDir @ [item]) items pats)"
        unfolding ih1 using l ne by blast
      then show ?thesis by simp
    next
      case False
      with q(3) qx have "lookup (Dir rest) q = Some (File c)" by simp
      with q have "f \<in> set (readDir currentDir rest pats)"
        unfolding ih2 by blast
      then show ?thesis by simp
    qed
  qed
next
  case (3 currentDir item content rest pats)
  from "3.prems" have fresh: "item \<notin> fst ` set rest" and wrest: "wf_items rest"
    by auto
  note ih = "3.IH"[OF wrest]
  show ?case
  proof
    assume "f \<in> set (readDir currentDir ((item, File content) # rest) pats)"
    then consider
      (here) "f = currentDir @ [item]" "item \<in> set pats" |
      (rest) "f \<in> set (readDir currentDir rest pats)"
      by (auto split: if_splits)
    then show "\<exists>q c. f = currentDir @ q \<and> q \<noteq> [] \<and>
        lookup (Dir ((item, File content) # rest)) q = Some (File c) \<and> last q \<in> set pats"
    proof cases
      case here
      then have "f = currentDir @ [item]" "[item] \<noteq> []"
        "lookup (Dir ((item, File content) # rest)) [item] = Some (File content)"
        "last [item] \<in> set pats"
        by simp_all
      then show ?thesis by blast
    next
      case rest
      then obtain q c where q: "f = currentDir @ q" "q \<noteq> []"
        "lookup (Dir rest) q = Some (File c)" "last q \<in> set pats"
        unfolding ih by blast
      from q(2) obtain x xs where qx: "q = x # xs" by (cases q) auto
      from q(3)[unfolded qx] have "x \<in> fst ` set rest" by (rule lookup_Dir_Some_head)
      with fresh have "x \<noteq> item" by auto
      with q(3) qx have "lookup (Dir ((item, File content) # rest)) q = Some (File c)"
        by simp
      with q show ?thesis by blast
    qed
  next
    assume "\<exists>q c. f = currentDir @ q \<and> q \<noteq> [] \<and>
        lookup (Dir ((item, File content) # rest)) q = Some (File c) \<and> last q \<in> set pats"
    then obtain q c where q: "f = currentDir @ q" "q \<noteq> []"
      "lookup (Dir ((item, File content) # rest)) q = Some (File c)" "last q \<in> set pats"
      by blast
    from q(2) obtain x xs where qx: "q = x # xs" by (cases q) auto
    show "f \<in> set (readDir currentDir ((item, File content) # rest) pats)"
    proof (cases "x = item")
      case True
      with q(3) qx have "lookup (File content) xs = Some (File c)" by simp
      then have "xs = []" by (simp add: lookup_File_iff)
      with q(1,4) qx True show ?thesis by simp
    next
      case False
      with q(3) qx have "lookup (Dir rest) q = Some (File c)" by simp
      with q have "f \<in> set (readDir currentDir rest pats)"
        unfolding ih by blast
      then show ?thesis by simp
    qed
  qed
qed

lemma readDir_distinct:
  assumes "wf_items items"
  shows "distinct (readDir cur items pats)"
  using assms
proof (induction cur items pats rule: readDir.induct)
  case (1 currentDir pats)
  then show ?case by simp
next
  case (2 currentDir item items rest pats)
  from "2.prems" have fresh: "item \<notin> fst ` set rest"
    and wsub: "wf_items items" and wrest: "wf_items rest"
    by auto
  have "set (readDir (currentDir @ [item]) items pats) \<inter> set (readDir currentDir rest pats) = {}"
  proof (rule ccontr)
    assume "\<not> ?thesis"
    then obtain f where a: "f \<in> set (readDir (currentDir @ [item]) items pats)"
      and b: "f \<in> set (readDir currentDir rest pats)"
      by blast
    from readDir_head[OF a] obtain x xs where "f = (currentDir @ [item]) @ x # xs" by blast
    moreover from readDir_head[OF b] obtain y ys where "f = currentDir @ y # ys"
      "y \<in> fst ` set rest" by blast
    ultimately have "item \<in> fst ` set rest" by simp
    with fresh show False by contradiction
  qed
  with "2.IH"(1)[OF wsub] "2.IH"(2)[OF wrest] show ?case by simp
next
  case (3 currentDir item content rest pats)
  from "3.prems" have fresh: "item \<notin> fst ` set rest" and wrest: "wf_items rest"
    by auto
  have "currentDir @ [item] \<notin> set (readDir currentDir rest pats)"
  proof
    assume "currentDir @ [item] \<in> set (readDir currentDir rest pats)"
    from readDir_head[OF this] obtain y ys where "currentDir @ [item] = currentDir @ y # ys"
      "y \<in> fst ` set rest" by blast
    then have "item \<in> fst ` set rest" by simp
    with fresh show False by contradiction
  qed
  with "3.IH"[OF wrest] show ?case by simp
qed

lemma wf_items_member:
  "wf_items items \<Longrightarrow> map_of items x = Some n \<Longrightarrow> wf_fs n"
  by (auto simp: wf_items_iff dest!: map_of_SomeD)

lemma wf_lookup: "wf_fs t \<Longrightarrow> lookup t p = Some n \<Longrightarrow> wf_fs n"
proof (induction p arbitrary: t)
  case Nil
  then show ?case by simp
next
  case (Cons x p)
  show ?case
  proof (cases t)
    case (File c)
    with Cons.prems show ?thesis by simp
  next
    case (Dir items)
    with Cons.prems obtain m where m: "map_of items x = Some m" "lookup m p = Some n"
      by (auto split: option.splits)
    with Cons.prems Dir have "wf_fs m" by (auto intro: wf_items_member)
    then show ?thesis using m(2) by (rule Cons.IH)
  qed
qed

lemma readDir_files_under:
  assumes "wf_fs (fs w)" and "lookup (fs w) dir = Some (Dir items)"
  shows "set (readDir dir items pats) = files_under w dir pats"
proof -
  from wf_lookup[OF assms] have wf: "wf_items items" by simp
  have l: "lookup (fs w) (dir @ q) = lookup (Dir items) q" for q
    by (simp add: lookup_append assms(2))
  show ?thesis
    unfolding files_under_def
  proof (intro set_eqI iffI CollectI)
    fix f
    assume "f \<in> set (readDir dir items pats)"
    then obtain q c where q: "f = dir @ q" "q \<noteq> []"
      "lookup (Dir items) q = Some (File c)" "last q \<in> set pats"
      unfolding readDir_iff[OF wf] by blast
    then have "lookup (fs w) f = Some (File c)" "last f \<in> set pats"
      by (simp_all add: l)
    with q(1,2) show "\<exists>q content. f = dir @ q \<and> q \<noteq> [] \<and>
        lookup (fs w) f = Some (File content) \<and> last f \<in> set pats"
      by blast
  next
    fix f
    assume "f \<in> {f. \<exists>q content. f = dir @ q \<and> q \<noteq> [] \<and>
        lookup (fs w) f = Some (File content) \<and> last f \<in> set pats}"
    then obtain q c where q: "f = dir @ q" "q \<noteq> []"
      "lookup (fs w) f = Some (File c)" "last f \<in> set pats"
      by blast
    then have "lookup (Dir items) q = Some (File c)" "last q \<in> set pats"
      by (simp_all add: l[symmetric])
    with q(1,2) show "f \<in> set (readDir dir items pats)"
      unfolding readDir_iff[OF wf] by blast
  qed
qed

lemma files_under_readable:
  "f \<in> files_under w dir pats \<Longrightarrow> \<exists>content. readFileSync w f = Inr content"
  by (auto simp: files_under_def readFileSync_def)

lemma scan_files_readable:
  assumes "\<And>f. f \<in> set files \<Longrightarrow> \<exists>content. readFileSync w f = Inr content"
  shows "scan_files w auth val files acc =
     Inr (fst acc @ filter (lacks_all w auth) files, snd acc @ filter (lacks_all w val) files)"
  using assms
proof (induction files arbitrary: acc)
  case Nil
  then show ?case by simp
next
  case (Cons f1 files)
  from Cons.prems[of f1] obtain content where c: "readFileSync w f1 = Inr content"
    by auto
  have rest: "\<And>f. f \<in> set files \<Longrightarrow> \<exists>content. readFileSync w f = Inr content"
    using Cons.prems by simp
  show ?case
    by (simp add: c Cons.IH[OF rest] lacks_all_def)
qed

lemma card_filter_distinct:
  "distinct xs \<Longrightarrow> length (filter P xs) = card {x. x \<in> set xs \<and> P x}"
proof -
  assume "distinct xs"
  then have "distinct (filter P xs)" by simp
  from distinct_card[OF this] have "length (filter P xs) = card (set (filter P xs))"
    by (rule sym)
  also have "set (filter P xs) = {x. x \<in> set xs \<and> P x}" by (rule set_filter)
  finally show ?thesis .
qed

lemma ApiSecurity_run_outcome:
  assumes "apiSecurity (cfg_checks cfg) = Some ac"
    and "truthy (api_enabled ac)"
    and "dir = path_join (cwd w) (str_or (apiDirectory ac) ''app/api'')"
    and "pats = list_or (filePatterns ac) [''route.ts'', ''route.js'']"
    and "auth = list_or (authMiddleware ac) [''withAuth'', ''withOptionalAuth'']"
    and "val = list_or (validationMiddleware ac) [''withValidation'', ''zod'']"
    and "wf_fs (fs w)"
    and "lookup (fs w) dir = Some (Dir items)"
  shows "ApiSecurity_run cfg w r =
     Inr (set_check ''apiSecurity''
       \<lparr>status = (if card {f. f \<in> files_under w dir pats \<and> lacks_all w auth f} = 0
                  then ''pass'' else ''warn''),
        detail = ApiDetail
          (card {f. f \<in> files_under w dir pats \<and> lacks_all w auth f})
          (card {f. f \<in> files_under w dir pats \<and> lacks_all w val f})
          (card (files_under w dir pats))\<rparr> r)"
proof -
  let ?files = "readDir dir items pats"
  from wf_lookup[OF assms(7,8)] have wf: "wf_items items" by simp
  have fu: "set ?files = files_under w dir pats"
    using assms(7,8) by (rule readDir_files_under)
  have d: "distinct ?files" using wf by (rule readDir_distinct)
  have find: "findApiFiles w dir pats = Inr ?files"
    by (simp add: findApiFiles_def readdirSync_def assms(8))
  have scan: "scan_files w auth val ?files ([], []) =
      Inr (filter (lacks_all w auth) ?files, filter (lacks_all w val) ?files)"
    using scan_files_readable[of ?files w auth val "([], [])"] files_under_readable
    unfolding fu by simp
  have ex: "existsSync w dir" by (simp add: existsSync_def assms(8))
  have n: "length (filter (lacks_all w auth) ?files) =
        card {f. f \<in> files_under w dir pats \<and> lacks_all w auth f}"
      "length (filter (lacks_all w val) ?files) =
        card {f. f \<in> files_under w dir pats \<and> lacks_all w val f}"
      "length ?files = card (files_under w dir pats)"
    using card_filter_distinct[OF d] distinct_card[OF d] unfolding fu by simp_all
  have n0: "(filter (lacks_all w auth) ?files = []) =
      (card {f. f \<in> files_under w dir pats \<and> lacks_all w auth f} = 0)"
    using n(1) by (metis length_0_conv)
  show ?thesis
    unfolding ApiSecurity_run_def
    using assms(1,2) ex find scan n n0
    by (simp add: Let_def assms(3,4,5,6)[symmetric])
qed

subsection \<open>Enumeration order\<close>

lemma lookup_Dir_map_of:
  "map_of items' = map_of items \<Longrightarrow> lookup (Dir items') (x # q) = lookup (Dir items) (x # q)"
  by simp

lemma content_lookup_Dir_Nil:
  "map_option content_of (lookup (Dir items') []) = map_option content_of (lookup (Dir items) [])"
  by simp

lemma reordered_content:
  "reordered t t' \<Longrightarrow> wf_fs t \<Longrightarrow>
     wf_fs t' \<and> (\<forall>p. map_option content_of (lookup t' p) = map_option content_of (lookup t p))"
proof (induction rule: reordered.induct)
  case (same t)
  then show ?case by simp
next
  case (swap xs a b ys)
  from swap.prems have d: "distinct (map fst (xs @ a # b # ys))"
    and all: "\<forall>(n, t) \<in> set (xs @ a # b # ys). wf_fs t"
    by (simp_all add: wf_items_iff)
  from d have d': "distinct (map fst (xs @ b # a # ys))" by auto
  have s: "set (xs @ b # a # ys) = set (xs @ a # b # ys)" by auto
  from d' all have wf: "wf_fs (Dir (xs @ b # a # ys))"
    unfolding wf_fs.simps wf_items_iff s by simp
  from d d' s have m: "map_of (xs @ b # a # ys) = map_of (xs @ a # b # ys)"
    by (simp only: map_of_inject_set)
  have "map_option content_of (lookup (Dir (xs @ b # a # ys)) p) =
      map_option content_of (lookup (Dir (xs @ a # b # ys)) p)" for p
  proof (cases p)
    case Nil
    then show ?thesis by simp
  next
    case (Cons x q)
    then show ?thesis using lookup_Dir_map_of[OF m] by simp
  qed
  with wf show ?case by blast
next
  case (child t t' xs n ys)
  from child.prems have d: "distinct (map fst (xs @ (n, t) # ys))"
    and all: "\<forall>(k, u) \<in> set (xs @ (n, t) # ys). wf_fs u"
    by (simp_all add: wf_items_iff)
  from all have "wf_fs t" by simp
  with child.IH have wt: "wf_fs t'"
    and ct: "\<And>p. map_option content_of (lookup t' p) = map_option content_of (lookup t p)"
    by simp_all
  from d have d': "distinct (map fst (xs @ (n, t') # ys))" by simp
  from all wt have all': "\<forall>(k, u) \<in> set (xs @ (n, t') # ys). wf_fs u" by auto
  from d' all' have wf: "wf_fs (Dir (xs @ (n, t') # ys))"
    unfolding wf_fs.simps wf_items_iff by simp
  have "map_option content_of (lookup (Dir (xs @ (n, t') # ys)) p) =
      map_option content_of (lookup (Dir (xs @ (n, t) # ys)) p)" for p
  proof (cases p)
    case Nil
    then show ?thesis by simp
  next
    case (Cons x q)
    show ?thesis
    proof (cases "map_of xs x")
      case (Some v)
      with Cons show ?thesis by (simp add: map_add_def)
    next
      case None
      with Cons ct[of q] show ?thesis by (simp add: map_add_def)
    qed
  qed
  with wf show ?case by blast
next
  case (trans t1 t2 t3)
  then show ?case by simp
qed

lemma content_File_iff:
  "map_option content_of (lookup t p) = Some (Some c) \<longleftrightarrow> lookup t p = Some (File c)"
proof (cases "lookup t p")
  case None
  then show ?thesis by simp
next
  case (Some n)
  then show ?thesis by (cases n) auto
qed

lemma content_Dir_iff:
  "map_option content_of (lookup t p) = Some None \<longleftrightarrow> (\<exists>items. lookup t p = Some (Dir items))"
proof (cases "lookup t p")
  case None
  then show ?thesis by simp
next
  case (Some n)
  then show ?thesis by (cases n) auto
qed

lemma readFileSync_content:
  "readFileSync w p =
     (case map_option content_of (lookup (fs w) p) of
        None \<Rightarrow> Inl (''ENOENT: no such file or directory, open '' @ render_path p)
      | Some None \<Rightarrow> Inl ''EISDIR: illegal operation on a directory, read''
      | Some (Some content) \<Rightarrow> Inr content)"
proof (cases "lookup (fs w) p")
  case None
  then show ?thesis by (simp add: readFileSync_def)
next
  case (Some n)
  then show ?thesis by (cases n) (simp_all add: readFileSync_def)
qed

lemma ApiSecurity_run_reordered:
  assumes "apiSecurity (cfg_checks cfg) = Some ac"
    and "truthy (api_enabled ac)"
    and "wf_fs (fs w)"
    and "lookup (fs w) (path_join (cwd w) (str_or (apiDirectory ac) ''app/api'')) =
           Some (Dir items)"
    and "reordered (fs w) (fs w')"
    and "cwd w' = cwd w"
  shows "ApiSecurity_run cfg w' r = ApiSecurity_run cfg w r"
proof -
  let ?dir = "path_join (cwd w) (str_or (apiDirectory ac) ''app/api'')"
  from reordered_content[OF assms(5,3)] have wf': "wf_fs (fs w')"
    and c: "\<And>p. map_option content_of (lookup (fs w') p) =
               map_option content_of (lookup (fs w) p)"
    by simp_all
  have fl: "lookup (fs w') p = Some (File x) \<longleftrightarrow> lookup (fs w) p = Some (File x)" for p x
    using c[of p] by (simp only: content_File_iff[symmetric])
  from assms(4) have "map_option content_of (lookup (fs w) ?dir) = Some None" by simp
  then have "map_option content_of (lookup (fs w') ?dir) = Some None" by (simp only: c)
  then obtain items' where dir': "lookup (fs w') ?dir = Some (Dir items')"
    unfolding content_Dir_iff by blast
  have fu: "files_under w' d ps = files_under w d ps" for d ps
    by (simp add: files_under_def fl)
  have rd: "readFileSync w' p = readFileSync w p" for p
    by (simp add: readFileSync_content c)
  have la: "lacks_all w' ms f = lacks_all w ms f" for ms f
    by (simp add: lacks_all_def rd)
  show ?thesis
    unfolding
      ApiSecurity_run_outcome[OF assms(1,2) refl refl refl refl assms(3,4), of r]
      ApiSecurity_run_outcome[OF assms(1,2) refl refl refl refl wf' dir'[unfolded assms(6)[symmetric]], of r]
    by (simp add: fu la assms(6))
qed

subsection \<open>The API check\<close>

lemma files_under_finite:
  assumes "wf_fs (fs w)" and "lookup (fs w) dir = Some (Dir items)"
  shows "finite (files_under w dir pats)"
  unfolding readDir_files_under[OF assms, symmetric] by (rule finite_set)

lemma card_0_iff_none:
  "finite A \<Longrightarrow> card {f. f \<in> A \<and> P f} = 0 \<longleftrightarrow> \<not> (\<exists>f \<in> A. P f)"
  by auto

text \<open>
  C8. In a tree whose directories hold distinct names, with the API directory a
  directory: the discovery returns, without duplicates, exactly the files strictly
  below the API directory, at any depth, whose name is equal to one of the configured
  pattern strings; the recorded \<^verbatim>\<open>unprotectedEndpoints\<close> is the number of those files
  whose content contains none of the auth-middleware substrings; and a tree that differs
  only in the order in which directories enumerate their children gives the same
  result of the check.
\<close>

theorem api_file_discovery:
  assumes "apiSecurity (cfg_checks cfg) = Some ac"
    and "truthy (api_enabled ac)"
    and "dir = path_join (cwd w) (str_or (apiDirectory ac) ''app/api'')"
    and "pats = list_or (filePatterns ac) [''route.ts'', ''route.js'']"
    and "auth = list_or (authMiddleware ac) [''withAuth'', ''withOptionalAuth'']"
    and "wf_fs (fs w)"
    and "lookup (fs w) dir = Some (Dir items)"
  shows "(\<exists>files. findApiFiles w dir pats = Inr files \<and> distinct files \<and>
            (\<forall>f. f \<in> set files \<longleftrightarrow>
               (\<exists>q content. f = dir @ q \<and> q \<noteq> [] \<and>
                  lookup (fs w) f = Some (File content) \<and> last f \<in> set pats))) \<and>
         (\<exists>st m t. ApiSecurity_run cfg w r =
            Inr (set_check ''apiSecurity''
              \<lparr>status = st,
               detail = ApiDetail
                 (card {f. f \<in> files_under w dir pats \<and> lacks_all w auth f}) m t\<rparr> r)) \<and>
         (\<forall>w'. reordered (fs w) (fs w') \<and> cwd w' = cwd w \<longrightarrow>
            ApiSecurity_run cfg w' r = ApiSecurity_run cfg w r)"
proof -
  from wf_lookup[OF assms(6,7)] have wf: "wf_items items" by simp
  have "findApiFiles w dir pats = Inr (readDir dir items pats)"
    by (simp add: findApiFiles_def readdirSync_def assms(7))
  moreover have "distinct (readDir dir items pats)"
    using wf by (rule readDir_distinct)
  moreover have "\<forall>f. f \<in> set (readDir dir items pats) \<longleftrightarrow>
      (\<exists>q content. f = dir @ q \<and> q \<noteq> [] \<and>
         lookup (fs w) f = Some (File content) \<and> last f \<in> set pats)"
    unfolding readDir_files_under[OF assms(6,7)] files_under_def by simp
  ultimately have a: "\<exists>files. findApiFiles w dir pats = Inr files \<and> distinct files \<and>
            (\<forall>f. f \<in> set files \<longleftrightarrow>
               (\<exists>q content. f = dir @ q \<and> q \<noteq> [] \<and>
                  lookup (fs w) f = Some (File content) \<and> last f \<in> set pats))"
    by blast
  have b: "\<exists>st m t. ApiSecurity_run cfg w r =
            Inr (set_check ''apiSecurity''
              \<lparr>status = st,
               detail = ApiDetail
                 (card {f. f \<in> files_under w dir pats \<and> lacks_all w auth f}) m t\<rparr> r)"
    unfolding ApiSecurity_run_outcome[OF assms(1,2,3,4,5) refl assms(6,7)] by blast
  have c: "\<forall>w'. reordered (fs w) (fs w') \<and> cwd w' = cwd w \<longrightarrow>
            ApiSecurity_run cfg w' r = ApiSecurity_run cfg w r"
    using ApiSecurity_run_reordered[OF assms(1,2,6) assms(7)[unfolded assms(3)]] by blast
  from a b c show ?thesis by blast
qed

lemma api_dir: "path_join [''proj''] ''app/api'' = [''proj'', ''app'', ''api'']"
  by (simp add: path_join_def path_step_def)

lemma reordered_only_child: "reordered t t' \<Longrightarrow> reordered (Dir [(n, t)]) (Dir [(n, t')])"
  using child[of t t' "[]" n "[]"] by simp

lemma reordered_two: "reordered (Dir [a, b]) (Dir [b, a])"
  using swap[of "[]" a b "[]"] by simp

text \<open>
  Two nested route files, one of them unprotected, and a file \<open>index.js\<close> that the
  pattern \<open>*.js\<close> does not match; the API directory enumerated in the other order
  gives the same outcome.
\<close>

theorem api_file_discovery_witness:
  "ApiSecurity_run api_config api_world_reordered (new_results api_config api_world) =
     ApiSecurity_run api_config api_world (new_results api_config api_world) \<and>
   ApiSecurity_run api_config api_world (new_results api_config api_world) =
     Inr (set_check ''apiSecurity''
       \<lparr>status = ''warn'', detail = ApiDetail 1 1 2\<rparr> (new_results api_config api_world))"
proof -
  have cfg: "apiSecurity (cfg_checks api_config) = Some api_settings"
    "truthy (api_enabled api_settings)"
    by (simp_all add: api_config_def api_settings_def no_checks_def truthy_def)
  have dir: "[''proj'', ''app'', ''api''] =
      path_join (cwd api_world) (str_or (apiDirectory api_settings) ''app/api'')"
    by (simp add: api_world_def api_settings_def str_or_def api_dir)
  have wf: "wf_fs (fs api_world)"
    by (simp add: api_world_def users_dir_def health_dir_def)
  have l: "lookup (fs api_world) [''proj'', ''app'', ''api''] =
      Some (Dir [(''users'', users_dir), (''health'', health_dir)])"
    by (simp add: api_world_def)
  note th = api_file_discovery[OF cfg dir refl refl wf l,
      of "new_results api_config api_world"]
  have "reordered (fs api_world) (fs api_world_reordered)"
    unfolding api_world_def api_world_reordered_def world.simps
    by (intro reordered_only_child reordered_two)
  moreover have "cwd api_world_reordered = cwd api_world"
    by (simp add: api_world_def api_world_reordered_def)
  ultimately have a: "ApiSecurity_run api_config api_world_reordered
        (new_results api_config api_world) =
      ApiSecurity_run api_config api_world (new_results api_config api_world)"
    using th by blast
  have b: "ApiSecurity_run api_config api_world (new_results api_config api_world) =
     Inr (set_check ''apiSecurity''
       \<lparr>status = ''warn'', detail = ApiDetail 1 1 2\<rparr> (new_results api_config api_world))"
    by (simp add: ApiSecurity_run_def api_config_def api_settings_def no_checks_def truthy_def
        str_or_def list_or_def api_world_def api_dir existsSync_def findApiFiles_def
        readdirSync_def users_dir_def health_dir_def readFileSync_def Let_def
        numeral_2_eq_2)
  from a b show ?thesis by (rule conjI)
qed

text \<open>
  C2, amended. When the API directory exists, the status is \<open>warn\<close> exactly when some
  discovered file lacks every auth-middleware substring, and \<open>pass\<close> exactly when none
  does. The recorded \<^verbatim>\<open>unprotectedEndpoints\<close> is the number of discovered files that
  lack every auth-middleware substring, \<^verbatim>\<open>missingValidation\<close> is the number of those
  that lack every validation-middleware substring, and \<^verbatim>\<open>totalFiles\<close> is the number
  of discovered files; the validation count does not enter the status.
\<close>

theorem api_status_tracks_unprotected:
  assumes "apiSecurity (cfg_checks cfg) = Some ac"
    and "truthy (api_enabled ac)"
    and "dir = path_join (cwd w) (str_or (apiDirectory ac) ''app/api'')"
    and "pats = list_or (filePatterns ac) [''route.ts'', ''route.js'']"
    and "auth = list_or (authMiddleware ac) [''withAuth'', ''withOptionalAuth'']"
    and "val = list_or (validationMiddleware ac) [''withValidation'', ''zod'']"
    and "wf_fs (fs w)"
    and "lookup (fs w) dir = Some (Dir items)"
  shows "\<exists>st u m t.
           ApiSecurity_run cfg w r =
             Inr (set_check ''apiSecurity'' \<lparr>status = st, detail = ApiDetail u m t\<rparr> r) \<and>
           (st = ''warn'' \<longleftrightarrow> (\<exists>f \<in> files_under w dir pats. lacks_all w auth f)) \<and>
           (st = ''pass'' \<longleftrightarrow> \<not> (\<exists>f \<in> files_under w dir pats. lacks_all w auth f)) \<and>
           u = card {f. f \<in> files_under w dir pats \<and> lacks_all w auth f} \<and>
           m = card {f. f \<in> files_under w dir pats \<and> lacks_all w val f} \<and>
           t = card (files_under w dir pats) \<and>
           (m = 0 \<longleftrightarrow> \<not> (\<exists>f \<in> files_under w dir pats. lacks_all w val f))"
proof -
  note fin = files_under_finite[OF assms(7,8), of pats]
  let ?u = "card {f. f \<in> files_under w dir pats \<and> lacks_all w auth f}"
  let ?m = "card {f. f \<in> files_under w dir pats \<and> lacks_all w val f}"
  let ?st = "if ?u = 0 then ''pass'' else ''warn''"
  have run: "ApiSecurity_run cfg w r =
      Inr (set_check ''apiSecurity''
        \<lparr>status = ?st, detail = ApiDetail ?u ?m (card (files_under w dir pats))\<rparr> r)"
    by (rule ApiSecurity_run_outcome[OF assms])
  have u: "?u = 0 \<longleftrightarrow> \<not> (\<exists>f \<in> files_under w dir pats. lacks_all w auth f)"
    using fin by (rule card_0_iff_none)
  have m: "?m = 0 \<longleftrightarrow> \<not> (\<exists>f \<in> files_under w dir pats. lacks_all w val f)"
    using fin by (rule card_0_iff_none)
  have w: "?st = ''warn'' \<longleftrightarrow> (\<exists>f \<in> files_under w dir pats. lacks_all w auth f)"
    using u by simp
  have p: "?st = ''pass'' \<longleftrightarrow> \<not> (\<exists>f \<in> files_under w dir pats. lacks_all w auth f)"
    using u by simp
  show ?thesis
  proof (intro exI conjI)
    show "ApiSecurity_run cfg w r =
      Inr (set_check ''apiSecurity''
        \<lparr>status = ?st, detail = ApiDetail ?u ?m (card (files_under w dir pats))\<rparr> r)"
      by (rule run)
    show "?st = ''warn'' \<longleftrightarrow> (\<exists>f \<in> files_under w dir pats. lacks_all w auth f)"
      by (rule w)
    show "?st = ''pass'' \<longleftrightarrow> \<not> (\<exists>f \<in> files_under w dir pats. lacks_all w auth f)"
      by (rule p)
    show "?u = card {f. f \<in> files_under w dir pats \<and> lacks_all w auth f}"
      by (rule refl)
    show "?m = card {f. f \<in> files_under w dir pats \<and> lacks_all w val f}"
      by (rule refl)
    show "card (files_under w dir pats) = card (files_under w dir pats)"
      by (rule refl)
    show "?m = 0 \<longleftrightarrow> \<not> (\<exists>f \<in> files_under w dir pats. lacks_all w val f)"
      by (rule m)
  qed
qed

text \<open>
  The unprotected health route makes the status \<open>warn\<close>.
\<close>

theorem api_status_tracks_unprotected_witness:
  "\<exists>u m t. ApiSecurity_run api_config api_world (new_results api_config api_world) =
     Inr (set_check ''apiSecurity'' \<lparr>status = ''warn'', detail = ApiDetail u m t\<rparr>
       (new_results api_config api_world))"
proof -
  have cfg: "apiSecurity (cfg_checks api_config) = Some api_settings"
    "truthy (api_enabled api_settings)"
    by (simp_all add: api_config_def api_settings_def no_checks_def truthy_def)
  have dir: "[''proj'', ''app'', ''api''] =
      path_join (cwd api_world) (str_or (apiDirectory api_settings) ''app/api'')"
    by (simp add: api_world_def api_settings_def str_or_def api_dir)
  have wf: "wf_fs (fs api_world)"
    by (simp add: api_world_def users_dir_def health_dir_def)
  have l: "lookup (fs api_world) [''proj'', ''app'', ''api''] =
      Some (Dir [(''users'', users_dir), (''health'', health_dir)])"
    by (simp add: api_world_def)
  from api_status_tracks_unprotected[OF cfg dir refl refl refl wf l,
      of "new_results api_config api_world"]
  obtain st u m t where
    run: "ApiSecurity_run api_config api_world (new_results api_config api_world) =
      Inr (set_check ''apiSecurity'' \<lparr>status = st, detail = ApiDetail u m t\<rparr>
        (new_results api_config api_world))" and
    st: "st = ''warn'' \<longleftrightarrow>
      (\<exists>f \<in> files_under api_world [''proj'', ''app'', ''api'']
          (list_or (filePatterns api_settings) [''route.ts'', ''route.js'']).
         lacks_all api_world
          (list_or (authMiddleware api_settings) [''withAuth'', ''withOptionalAuth'']) f)"
    by blast
  have "[''proj'', ''app'', ''api'', ''health'', ''route.ts''] \<in>
      files_under api_world [''proj'', ''app'', ''api'']
        (list_or (filePatterns api_settings) [''route.ts'', ''route.js''])"
    unfolding files_under_def
    by (rule CollectI, rule exI[of _ "[''health'', ''route.ts'']"])
      (simp add: api_world_def health_dir_def api_settings_def list_or_def)
  moreover have "lacks_all api_world
      (list_or (authMiddleware api_settings) [''withAuth'', ''withOptionalAuth''])
      [''proj'', ''app'', ''api'', ''health'', ''route.ts'']"
    by (simp add: lacks_all_def readFileSync_def api_world_def health_dir_def
        api_settings_def list_or_def)
  ultimately have "st = ''warn''" using st by blast
  with run show ?thesis by blast
qed

text \<open>
  C2 as stated fails: the only route file is protected by \<open>withAuth\<close> and lacks the
  validation middleware; \<^verbatim>\<open>missingValidation\<close> is 1 and the status is \<open>pass\<close>.
\<close>

theorem missing_validation_alone_passes:
  "ApiSecurity_run api_config validation_gap_world
     (new_results api_config validation_gap_world) =
   Inr (set_check ''apiSecurity''
     \<lparr>status = ''pass'', detail = ApiDetail 0 1 1\<rparr>
     (new_results api_config validation_gap_world)) \<and>
   lacks_all validation_gap_world [''withValidation'']
     [''proj'', ''app'', ''api'', ''route.ts''] \<and>
   validationMiddleware api_settings = Some [''withValidation''] \<and>
   existsSync validation_gap_world [''proj'', ''app'', ''api'']"
  by (simp add: ApiSecurity_run_def api_config_def api_settings_def no_checks_def truthy_def
      str_or_def list_or_def validation_gap_world_def api_dir existsSync_def findApiFiles_def
      readdirSync_def readFileSync_def lacks_all_def Let_def)

subsection \<open>The legacy run as a sequence that stops at the first error\<close>

lemma legacy_run_steps:
  "legacy_run cfg w =
     (case legacy_steps cfg w checks_registry (new_results cfg w) of
        Inl (message, r) \<Rightarrow> Rejected message r
      | Inr r5 \<Rightarrow>
          Completed (generateRecommendations cfg r5)
            (generateReport cfg w (generateRecommendations cfg r5)))"
  unfolding legacy_run_def checks_registry_def
  by (simp add: legacy_eqs[abs_def] Let_def split: sum.splits prod.splits)

lemma legacy_steps_append:
  "legacy_steps cfg w (es @ es2) r =
     (case legacy_steps cfg w es r of
        Inl thrown \<Rightarrow> Inl thrown
      | Inr r' \<Rightarrow> legacy_steps cfg w es2 r')"
proof (induction es arbitrary: r)
  case Nil
  then show ?case by simp
next
  case (Cons e es)
  obtain n m where e: "e = (n, m)" by (cases e)
  show ?case unfolding e by (simp add: Cons.IH split: sum.splits)
qed

lemma legacy_steps_completed:
  "legacy_steps cfg w es r = Inr r' \<Longrightarrow> run_checks cfg w es r = r'"
proof (induction es arbitrary: r)
  case Nil
  then show ?case by (simp add: run_checks_Nil)
next
  case (Cons e es)
  obtain n m where e: "e = (n, m)" by (cases e)
  from Cons.prems obtain r1 where
    s: "legacy_when (config_enabled cfg n) (m cfg w) r = Inr r1" and
    t: "legacy_steps cfg w es r1 = Inr r'"
    unfolding e by (auto split: sum.splits)
  from legacy_when_run_check[of cfg n m w, OF s] have "run_check cfg w r (n, m) = r1" .
  with Cons.IH[OF t] show ?case by (simp add: e run_checks_Cons)
qed

lemma legacy_steps_rejected:
  "legacy_steps cfg w es r = Inl (message, r') \<Longrightarrow>
     \<exists>pre n m post. es = pre @ (n, m) # post \<and> config_enabled cfg n \<and>
        legacy_steps cfg w pre r = Inr r' \<and> m cfg w r' = Inl message"
proof (induction es arbitrary: r)
  case Nil
  then show ?case by simp
next
  case (Cons e es)
  obtain n m where e: "e = (n, m)" by (cases e)
  show ?case
  proof (cases "legacy_when (config_enabled cfg n) (m cfg w) r")
    case (Inl thrown)
    with Cons.prems have th: "thrown = (message, r')" by (simp add: e)
    from Inl th have "config_enabled cfg n" "r' = r" "m cfg w r = Inl message"
      by (auto simp: legacy_when_def split: if_splits sum.splits)
    then have "e # es = [] @ (n, m) # es \<and> config_enabled cfg n \<and>
        legacy_steps cfg w [] r = Inr r' \<and> m cfg w r' = Inl message"
      by (simp add: e)
    then show ?thesis by blast
  next
    case (Inr r1)
    with Cons.prems have "legacy_steps cfg w es r1 = Inl (message, r')" by (simp add: e)
    from Cons.IH[OF this] obtain pre k c post where
      d: "es = pre @ (k, c) # post" "config_enabled cfg k"
        "legacy_steps cfg w pre r1 = Inr r'" "c cfg w r' = Inl message"
      by blast
    from d(3) Inr have "legacy_steps cfg w ((n, m) # pre) r = Inr r'" by simp
    with d(1,2,4) have "e # es = ((n, m) # pre) @ (k, c) # post \<and> config_enabled cfg k \<and>
        legacy_steps cfg w ((n, m) # pre) r = Inr r' \<and> c cfg w r' = Inl message"
      by (simp add: e)
    then show ?thesis by blast
  qed
qed

lemma legacy_steps_no_throw_before:
  assumes "legacy_steps cfg w pre r = Inr r'"
    and "i < length pre"
    and "config_enabled cfg (fst (pre ! i))"
  shows "\<exists>r''. snd (pre ! i) cfg w (run_checks cfg w (take i pre) r) = Inr r''"
proof -
  obtain n m where e: "pre ! i = (n, m)" by (cases "pre ! i")
  from assms(2) have d: "pre = take i pre @ (n, m) # drop (Suc i) pre"
    using e by (metis id_take_nth_drop)
  from assms(1) obtain a where a: "legacy_steps cfg w (take i pre) r = Inr a"
    and b: "legacy_steps cfg w ((n, m) # drop (Suc i) pre) a = Inr r'"
    by (subst (asm) d) (auto simp: legacy_steps_append split: sum.splits)
  from legacy_steps_completed[OF a] have ra: "run_checks cfg w (take i pre) r = a" .
  from b assms(3) e obtain r'' where "m cfg w a = Inr r''"
    by (auto simp: legacy_when_def split: sum.splits)
  with ra e show ?thesis by simp
qed

lemma legacy_steps_throw:
  assumes "es = pre @ (n, m) # post"
    and "config_enabled cfg n"
    and "m cfg w (run_checks cfg w pre r) = Inl message"
  shows "\<exists>message' r'. legacy_steps cfg w es r = Inl (message', r')"
proof (cases "legacy_steps cfg w pre r")
  case (Inl thrown)
  obtain message' r' where "thrown = (message', r')" by (cases thrown)
  with Inl show ?thesis unfolding assms(1) by (simp add: legacy_steps_append)
next
  case (Inr a)
  from legacy_steps_completed[OF Inr] have "run_checks cfg w pre r = a" .
  with assms(2,3) have "legacy_when (config_enabled cfg n) (m cfg w) a = Inl (message, a)"
    by (simp add: legacy_when_def)
  with Inr show ?thesis unfolding assms(1) by (simp add: legacy_steps_append)
qed

lemma thrown_error_recorded:
  assumes "checks_registry = pre @ (n, m) # post"
    and "config_enabled cfg n"
    and "m cfg w (run_checks cfg w pre (new_results cfg w)) = Inl message"
  shows "fst (SecurityMonitor_run cfg w) =
           generateRecommendations cfg
             (run_checks cfg w post
                (set_check n \<lparr>status = ''error'', detail = ErrorDetail message\<rparr>
                   (run_checks cfg w pre (new_results cfg w))))"
    and "snd (SecurityMonitor_run cfg w) =
           generateReport cfg w (fst (SecurityMonitor_run cfg w))"
    and "map_of (checks (fst (SecurityMonitor_run cfg w))) n =
           Some \<lparr>status = ''error'', detail = ErrorDetail message\<rparr>"
proof -
  let ?r0 = "new_results cfg w"
  let ?err = "\<lparr>status = ''error'', detail = ErrorDetail message\<rparr>"
  have step: "run_check cfg w (run_checks cfg w pre ?r0) (n, m) =
      set_check n ?err (run_checks cfg w pre ?r0)"
    using assms(2,3) by (simp add: run_check_def)
  have split: "run_checks cfg w checks_registry ?r0 =
      run_checks cfg w post (set_check n ?err (run_checks cfg w pre ?r0))"
    unfolding assms(1) by (simp add: run_checks_append run_checks_Cons step)
  show final: "fst (SecurityMonitor_run cfg w) =
      generateRecommendations cfg
        (run_checks cfg w post (set_check n ?err (run_checks cfg w pre ?r0)))"
    by (simp add: SecurityMonitor_run_def Let_def split)
  show "snd (SecurityMonitor_run cfg w) = generateReport cfg w (fst (SecurityMonitor_run cfg w))"
    by (simp add: SecurityMonitor_run_def Let_def)
  have post: "set post \<subseteq> set checks_registry" unfolding assms(1) by auto
  have "distinct (map fst (pre @ (n, m) # post))"
    using registry_distinct unfolding assms(1) .
  then have notin: "n \<notin> fst ` set post" by auto
  show "map_of (checks (fst (SecurityMonitor_run cfg w))) n = Some ?err"
    unfolding final generateRecommendations_checks
    by (simp add: run_checks_other[OF post notin] set_check_lookup)
qed

text \<open>
  C10, amended. If the legacy run completes, the modular run ends with the same
  accumulator and the same report. If the legacy run is rejected, it is at an enabled
  check that throws, the first to do so: the checks before it returned, the rejected
  accumulator is the one the modular run has before that check, it holds no
  recommendations, and the message is that check's; the modular run records
  \<^verbatim>\<open>{ status: 'error', error: message }\<close> under that check's name, goes on with the
  remaining checks, the deriver and the reporter, and still holds that entry at the
  end. And whenever an enabled check throws at its turn, the legacy run is rejected.
\<close>

theorem legacy_agrees_unless_check_throws:
  "(\<forall>r rep. legacy_run cfg w = Completed r rep \<longrightarrow> SecurityMonitor_run cfg w = (r, rep)) \<and>
   (\<forall>message r. legacy_run cfg w = Rejected message r \<longrightarrow>
      (\<exists>pre n m post.
         checks_registry = pre @ (n, m) # post \<and> config_enabled cfg n \<and>
         r = run_checks cfg w pre (new_results cfg w) \<and>
         m cfg w r = Inl message \<and>
         (\<forall>i < length pre. config_enabled cfg (fst (pre ! i)) \<longrightarrow>
            (\<exists>r'. snd (pre ! i) cfg w
                     (run_checks cfg w (take i pre) (new_results cfg w)) = Inr r')) \<and>
         recommendations r = [] \<and>
         fst (SecurityMonitor_run cfg w) =
           generateRecommendations cfg
             (run_checks cfg w post
                (set_check n \<lparr>status = ''error'', detail = ErrorDetail message\<rparr> r)) \<and>
         snd (SecurityMonitor_run cfg w) =
           generateReport cfg w (fst (SecurityMonitor_run cfg w)) \<and>
         map_of (checks (fst (SecurityMonitor_run cfg w))) n =
           Some \<lparr>status = ''error'', detail = ErrorDetail message\<rparr>)) \<and>
   (\<forall>pre n m post message.
      checks_registry = pre @ (n, m) # post \<and> config_enabled cfg n \<and>
      m cfg w (run_checks cfg w pre (new_results cfg w)) = Inl message \<longrightarrow>
      (\<exists>message' r. legacy_run cfg w = Rejected message' r))"
proof (intro conjI allI impI)
  fix r rep
  assume "legacy_run cfg w = Completed r rep"
  then show "SecurityMonitor_run cfg w = (r, rep)" by (rule legacy_completed_agrees)
next
  fix message r
  assume rej: "legacy_run cfg w = Rejected message r"
  then have "legacy_steps cfg w checks_registry (new_results cfg w) = Inl (message, r)"
    unfolding legacy_run_steps by (auto split: sum.splits prod.splits)
  from legacy_steps_rejected[OF this] obtain pre n m post where
    d: "checks_registry = pre @ (n, m) # post" and en: "config_enabled cfg n" and
    p: "legacy_steps cfg w pre (new_results cfg w) = Inr r" and t: "m cfg w r = Inl message"
    by blast
  from legacy_steps_completed[OF p] have r: "r = run_checks cfg w pre (new_results cfg w)"
    by (rule sym)
  have before: "\<forall>i < length pre. config_enabled cfg (fst (pre ! i)) \<longrightarrow>
      (\<exists>r'. snd (pre ! i) cfg w (run_checks cfg w (take i pre) (new_results cfg w)) = Inr r')"
    using legacy_steps_no_throw_before[OF p] by blast
  have "set pre \<subseteq> set checks_registry" unfolding d by auto
  then have norec: "recommendations r = []"
    unfolding r by (simp add: run_checks_recommendations new_results_def)
  note rec = thrown_error_recorded[OF d en t[unfolded r]]
  show "\<exists>pre n m post.
         checks_registry = pre @ (n, m) # post \<and> config_enabled cfg n \<and>
         r = run_checks cfg w pre (new_results cfg w) \<and>
         m cfg w r = Inl message \<and>
         (\<forall>i < length pre. config_enabled cfg (fst (pre ! i)) \<longrightarrow>
            (\<exists>r'. snd (pre ! i) cfg w
                     (run_checks cfg w (take i pre) (new_results cfg w)) = Inr r')) \<and>
         recommendations r = [] \<and>
         fst (SecurityMonitor_run cfg w) =
           generateRecommendations cfg
             (run_checks cfg w post
                (set_check n \<lparr>status = ''error'', detail = ErrorDetail message\<rparr> r)) \<and>
         snd (SecurityMonitor_run cfg w) =
           generateReport cfg w (fst (SecurityMonitor_run cfg w)) \<and>
         map_of (checks (fst (SecurityMonitor_run cfg w))) n =
           Some \<lparr>status = ''error'', detail = ErrorDetail message\<rparr>"
  proof (intro exI conjI)
    show "checks_registry = pre @ (n, m) # post" by (rule d)
    show "config_enabled cfg n" by (rule en)
    show "r = run_checks cfg w pre (new_results cfg w)" by (rule r)
    show "m cfg w r = Inl message" by (rule t)
    show "\<forall>i < length pre. config_enabled cfg (fst (pre ! i)) \<longrightarrow>
      (\<exists>r'. snd (pre ! i) cfg w (run_checks cfg w (take i pre) (new_results cfg w)) = Inr r')"
      by (rule before)
    show "recommendations r = []" by (rule norec)
    show "fst (SecurityMonitor_run cfg w) =
           generateRecommendations cfg
             (run_checks cfg w post
                (set_check n \<lparr>status = ''error'', detail = ErrorDetail message\<rparr> r))"
      unfolding r by (rule rec(1))
    show "snd (SecurityMonitor_run cfg w) =
           generateReport cfg w (fst (SecurityMonitor_run cfg w))"
      by (rule rec(2))
    show "map_of (checks (fst (SecurityMonitor_run cfg w))) n =
           Some \<lparr>status = ''error'', detail = ErrorDetail message\<rparr>"
      by (rule rec(3))
  qed
next
  fix pre n m post message
  assume a: "checks_registry = pre @ (n, m) # post \<and> config_enabled cfg n \<and>
      m cfg w (run_checks cfg w pre (new_results cfg w)) = Inl message"
  then have "\<exists>message' r'. legacy_steps cfg w checks_registry (new_results cfg w) =
      Inl (message', r')"
    by (intro legacy_steps_throw[of _ pre n m post]) auto
  then show "\<exists>message' r. legacy_run cfg w = Rejected message' r"
    unfolding legacy_run_steps by auto
qed

text \<open>
  A run with only the dependency audit enabled completes in both implementations; with
  the headers file a directory the headers check throws and the legacy run is
  rejected.
\<close>

theorem legacy_agrees_unless_check_throws_witness:
  "fst (SecurityMonitor_run zero_moderate_config one_moderate_world) =
     legacy_accumulator (legacy_run zero_moderate_config one_moderate_world) \<and>
   (\<exists>message r. legacy_run headers_dir_config headers_dir_world = Rejected message r)"
proof -
  have "\<exists>r rep. legacy_run zero_moderate_config one_moderate_world = Completed r rep"
    by (simp add: legacy_run_def legacy_when_def config_enabled_def zero_moderate_config_def
        no_checks_def truthy_def legacy_runDependencyAudit_def one_moderate_world_def
        str_or_def Let_def)
  then obtain r rep where c: "legacy_run zero_moderate_config one_moderate_world = Completed r rep"
    by blast
  with legacy_agrees_unless_check_throws[of zero_moderate_config one_moderate_world]
  have "SecurityMonitor_run zero_moderate_config one_moderate_world = (r, rep)"
    by blast
  with c have a: "fst (SecurityMonitor_run zero_moderate_config one_moderate_world) =
     legacy_accumulator (legacy_run zero_moderate_config one_moderate_world)"
    by (simp add: legacy_accumulator_def)
  have reg: "checks_registry =
      [(''dependencyAudit'', DependencyAudit_run), (''environmentVariables'', EnvironmentVariables_run)] @
      (''securityHeaders'', SecurityHeaders_run) #
      [(''apiSecurity'', ApiSecurity_run), (''databaseSecurity'', DatabaseSecurity_run)]"
    by (simp add: checks_registry_def)
  have en: "config_enabled headers_dir_config ''securityHeaders''"
    by (simp add: config_enabled_def headers_dir_config_def no_checks_def truthy_def)
  have thrown: "SecurityHeaders_run headers_dir_config headers_dir_world
      (run_checks headers_dir_config headers_dir_world
         [(''dependencyAudit'', DependencyAudit_run), (''environmentVariables'', EnvironmentVariables_run)]
         (new_results headers_dir_config headers_dir_world)) =
      Inl ''EISDIR: illegal operation on a directory, read''"
    by (simp add: SecurityHeaders_run_def headers_dir_config_def headers_dir_world_def
        no_checks_def truthy_def str_or_def path_join_def path_step_def existsSync_def
        readFileSync_def Let_def)
  from legacy_agrees_unless_check_throws[of headers_dir_config headers_dir_world] reg en thrown
  have b: "\<exists>message r. legacy_run headers_dir_config headers_dir_world = Rejected message r"
    by blast
  from a b show ?thesis by (rule conjI)
qed

end
